theory Spec2Isabelle
  imports Complex_Main "HOL-Library.Extended_Nat"
begin

section \<open>Exceptions\<close>

text \<open>
  A Python exception is modelled by its class and its message.  A computation that may
  raise returns \<open>py_exc + 'a\<close>, with \<open>Inl\<close> for the exception.
\<close>

datatype exc_class = ValueError | IndexError | KeyError

datatype py_exc = Exc exc_class string

fun exc_class_of :: "py_exc \<Rightarrow> exc_class" where
  "exc_class_of (Exc c msg) = c"

fun exc_message :: "py_exc \<Rightarrow> string" where
  "exc_message (Exc c msg) = msg"

definition and_then :: "py_exc + 'a \<Rightarrow> ('a \<Rightarrow> py_exc + 'b) \<Rightarrow> py_exc + 'b" where
  "and_then r k = (case r of Inl e \<Rightarrow> Inl e | Inr v \<Rightarrow> k v)"

section \<open>Move algebra (cubist/core/moves.py)\<close>

text \<open>
  The \<open>Move\<close> enumeration, in the order of the source.  The wide moves are written
  \<open>r\<close>, \<open>rp\<close>, \<open>r2\<close>, ... in the source; here they carry the prefix \<open>wide_\<close>.
\<close>

datatype Move =
    R | Rp | R2 | L | Lp | L2 | U | Up | U2
  | D | Dp | D2 | F | Fp | F2 | B | Bp | B2
  | wide_r | wide_rp | wide_r2 | wide_l | wide_lp | wide_l2 | wide_u | wide_up | wide_u2
  | wide_d | wide_dp | wide_d2 | wide_f | wide_fp | wide_f2 | wide_b | wide_bp | wide_b2

definition catalogue :: "Move list" where
  "catalogue =
    [R, Rp, R2, L, Lp, L2, U, Up, U2, D, Dp, D2, F, Fp, F2, B, Bp, B2,
     wide_r, wide_rp, wide_r2, wide_l, wide_lp, wide_l2, wide_u, wide_up, wide_u2, wide_d, wide_dp, wide_d2, wide_f, wide_fp, wide_f2, wide_b, wide_bp, wide_b2]"

text \<open>\<open>Move.__str__\<close>: the notation token of a move.\<close>

fun Move_str :: "Move \<Rightarrow> string" where
  "Move_str R = ''R''" | "Move_str Rp = ''R'' @ [CHR 0x27]" | "Move_str R2 = ''R2''"
| "Move_str L = ''L''" | "Move_str Lp = ''L'' @ [CHR 0x27]" | "Move_str L2 = ''L2''"
| "Move_str U = ''U''" | "Move_str Up = ''U'' @ [CHR 0x27]" | "Move_str U2 = ''U2''"
| "Move_str D = ''D''" | "Move_str Dp = ''D'' @ [CHR 0x27]" | "Move_str D2 = ''D2''"
| "Move_str F = ''F''" | "Move_str Fp = ''F'' @ [CHR 0x27]" | "Move_str F2 = ''F2''"
| "Move_str B = ''B''" | "Move_str Bp = ''B'' @ [CHR 0x27]" | "Move_str B2 = ''B2''"
| "Move_str wide_r = ''r''" | "Move_str wide_rp = ''r'' @ [CHR 0x27]" | "Move_str wide_r2 = ''r2''"
| "Move_str wide_l = ''l''" | "Move_str wide_lp = ''l'' @ [CHR 0x27]" | "Move_str wide_l2 = ''l2''"
| "Move_str wide_u = ''u''" | "Move_str wide_up = ''u'' @ [CHR 0x27]" | "Move_str wide_u2 = ''u2''"
| "Move_str wide_d = ''d''" | "Move_str wide_dp = ''d'' @ [CHR 0x27]" | "Move_str wide_d2 = ''d2''"
| "Move_str wide_f = ''f''" | "Move_str wide_fp = ''f'' @ [CHR 0x27]" | "Move_str wide_f2 = ''f2''"
| "Move_str wide_b = ''b''" | "Move_str wide_bp = ''b'' @ [CHR 0x27]" | "Move_str wide_b2 = ''b2''"

text \<open>\<open>Move.inverse\<close>.\<close>

fun inverse_move :: "Move \<Rightarrow> Move" where
  "inverse_move R = Rp" | "inverse_move Rp = R" | "inverse_move R2 = R2"
| "inverse_move L = Lp" | "inverse_move Lp = L" | "inverse_move L2 = L2"
| "inverse_move U = Up" | "inverse_move Up = U" | "inverse_move U2 = U2"
| "inverse_move D = Dp" | "inverse_move Dp = D" | "inverse_move D2 = D2"
| "inverse_move F = Fp" | "inverse_move Fp = F" | "inverse_move F2 = F2"
| "inverse_move B = Bp" | "inverse_move Bp = B" | "inverse_move B2 = B2"
| "inverse_move wide_r = wide_rp" | "inverse_move wide_rp = wide_r" | "inverse_move wide_r2 = wide_r2"
| "inverse_move wide_l = wide_lp" | "inverse_move wide_lp = wide_l" | "inverse_move wide_l2 = wide_l2"
| "inverse_move wide_u = wide_up" | "inverse_move wide_up = wide_u" | "inverse_move wide_u2 = wide_u2"
| "inverse_move wide_d = wide_dp" | "inverse_move wide_dp = wide_d" | "inverse_move wide_d2 = wide_d2"
| "inverse_move wide_f = wide_fp" | "inverse_move wide_fp = wide_f" | "inverse_move wide_f2 = wide_f2"
| "inverse_move wide_b = wide_bp" | "inverse_move wide_bp = wide_b" | "inverse_move wide_b2 = wide_b2"


section \<open>Cubie state (cubist/core/cube_state.py)\<close>

text \<open>
  A \<open>CubeState\<close> holds four numpy arrays of element type int8.  An array is modelled
  by the list of its entries.  Every theorem below concerns states whose entries lie
  in the documented ranges (predicate \<open>cube_shape\<close>), where int8 arithmetic and
  integer arithmetic agree.
\<close>

record CubeState =
  corner_perm :: "int list"
  corner_orient :: "int list"
  edge_perm :: "int list"
  edge_orient :: "int list"

definition cube_shape :: "CubeState \<Rightarrow> bool" where
  "cube_shape s \<longleftrightarrow>
     length (corner_perm s) = 8 \<and> length (corner_orient s) = 8 \<and>
     length (edge_perm s) = 12 \<and> length (edge_orient s) = 12 \<and>
     list_all (\<lambda>v. 0 \<le> v \<and> v < 8) (corner_perm s) \<and>
     list_all (\<lambda>v. 0 \<le> v \<and> v < 3) (corner_orient s) \<and>
     list_all (\<lambda>v. 0 \<le> v \<and> v < 12) (edge_perm s) \<and>
     list_all (\<lambda>v. 0 \<le> v \<and> v < 2) (edge_orient s)"

text \<open>
  What \<open>__init__\<close> can receive for one of its four parameters: \<open>None\<close>, a Python list,
  or a numpy array (\<open>clone\<close> passes \<open>self.corner_perm.copy()\<close>, an array).
\<close>

datatype py_arg = PyNone | PyList "int list" | NdArray "int list"

definition ambiguous_truth_value :: py_exc where
  "ambiguous_truth_value = Exc ValueError
     ''The truth value of an array with more than one element is ambiguous. Use a.any() or a.all()''"

text \<open>
  The truth value of an argument, as the conditional expression
  \<open>corner_perm if corner_perm else list(range(8))\<close> takes it: \<open>None\<close> and the empty list
  are false, a non-empty list is true; numpy gives an array of one entry the truth
  value of that entry, an empty array the value false, and raises \<open>ValueError\<close> for an
  array of more than one entry.
\<close>

fun truth_value :: "py_arg \<Rightarrow> py_exc + bool" where
  "truth_value PyNone = Inr False"
| "truth_value (PyList xs) = Inr (xs \<noteq> [])"
| "truth_value (NdArray xs) =
     (if length xs > 1 then Inl ambiguous_truth_value
      else if xs = [] then Inr False
      else Inr (hd xs \<noteq> 0))"

fun arg_entries :: "py_arg \<Rightarrow> int list" where
  "arg_entries PyNone = []"
| "arg_entries (PyList xs) = xs"
| "arg_entries (NdArray xs) = xs"

text \<open>\<open>np.array(a if a else default, dtype=np.int8)\<close>.\<close>

definition init_field :: "py_arg \<Rightarrow> int list \<Rightarrow> py_exc + int list" where
  "init_field a dflt =
     and_then (truth_value a) (\<lambda>b. Inr (if b then arg_entries a else dflt))"

text \<open>\<open>CubeState.__init__\<close>: the four fields are evaluated in order.\<close>

definition CubeState_init :: "py_arg \<Rightarrow> py_arg \<Rightarrow> py_arg \<Rightarrow> py_arg \<Rightarrow> py_exc + CubeState" where
  "CubeState_init cp co ep eo =
     and_then (init_field cp (map int [0..<8])) (\<lambda>cp'.
     and_then (init_field co (replicate 8 0)) (\<lambda>co'.
     and_then (init_field ep (map int [0..<12])) (\<lambda>ep'.
     and_then (init_field eo (replicate 12 0)) (\<lambda>eo'.
       Inr \<lparr>corner_perm = cp', corner_orient = co', edge_perm = ep', edge_orient = eo'\<rparr>))))"

text \<open>\<open>CubeState.solved\<close> is \<open>CubeState()\<close>; the state it builds is \<open>solved_state\<close>.\<close>

definition solved :: "py_exc + CubeState" where
  "solved = CubeState_init PyNone PyNone PyNone PyNone"

definition solved_state :: CubeState where
  "solved_state = \<lparr>corner_perm = [0, 1, 2, 3, 4, 5, 6, 7],
                    corner_orient = [0, 0, 0, 0, 0, 0, 0, 0],
                    edge_perm = [0, 1, 2, 3, 4, 5, 6, 7, 8, 9, 10, 11],
                    edge_orient = [0, 0, 0, 0, 0, 0, 0, 0, 0, 0, 0, 0]\<rparr>"

text \<open>\<open>CubeState.clone\<close>: calls the constructor with copies of the four arrays.\<close>

definition clone :: "CubeState \<Rightarrow> py_exc + CubeState" where
  "clone s = CubeState_init (NdArray (corner_perm s)) (NdArray (corner_orient s))
                            (NdArray (edge_perm s)) (NdArray (edge_orient s))"

text \<open>\<open>CubeState.is_solved\<close> and \<open>CubeState.__eq__\<close> (\<open>np.array_equal\<close> on each field).\<close>

definition is_solved :: "CubeState \<Rightarrow> bool" where
  "is_solved s \<longleftrightarrow>
     corner_perm s = map int [0..<8] \<and> corner_orient s = replicate 8 0 \<and>
     edge_perm s = map int [0..<12] \<and> edge_orient s = replicate 12 0"

definition state_eq :: "CubeState \<Rightarrow> CubeState \<Rightarrow> bool" where
  "state_eq s t \<longleftrightarrow>
     corner_perm s = corner_perm t \<and> corner_orient s = corner_orient t \<and>
     edge_perm s = edge_perm t \<and> edge_orient s = edge_orient t"

subsection \<open>The quarter turns\<close>

text \<open>
  The three quarter turns share one loop: with \<open>cyc\<close> the cycle of four positions,
  \<^verbatim>\<open>temp = a[cyc[0]]; for i in range(3): a[cyc[i]] = g(cyc[i], a[cyc[i+1]]); a[cyc[3]] = g(cyc[3], temp)\<close>
  where \<open>g\<close> is the identity for a permutation array and for the orientations of \<open>R\<close>
  and \<open>U\<close>, adds one modulo 3 for the corner orientations of \<open>F\<close>, and flips the edges
  written to positions 1 and 5 for the edge orientations of \<open>F\<close>.
\<close>

definition cycle_loop :: "nat list \<Rightarrow> (nat \<Rightarrow> int \<Rightarrow> int) \<Rightarrow> int list \<Rightarrow> int list" where
  "cycle_loop cyc g a =
     (let temp = a ! (cyc ! 0);
          a' = fold (\<lambda>i b. b[cyc ! i := g (cyc ! i) (b ! (cyc ! (i + 1)))]) [0..<3] a
      in a'[cyc ! 3 := g (cyc ! 3) temp])"

definition keep :: "nat \<Rightarrow> int \<Rightarrow> int" where
  "keep p v = v"

definition twist :: "nat \<Rightarrow> int \<Rightarrow> int" where
  "twist p v = (v + 1) mod 3"

definition flip_uf_df :: "nat \<Rightarrow> int \<Rightarrow> int" where
  "flip_uf_df p v = (if p \<in> {1, 5} then (v + 1) mod 2 else v)"

definition index_error :: py_exc where
  "index_error = Exc IndexError ''index out of bounds''"

text \<open>
  The body of a quarter turn after \<open>new_state = self.clone()\<close>.  The positions are
  constants below 8 (corners) and 12 (edges); shorter arrays raise \<open>IndexError\<close>.
\<close>

definition turn_body ::
  "nat list \<Rightarrow> (nat \<Rightarrow> int \<Rightarrow> int) \<Rightarrow> nat list \<Rightarrow> (nat \<Rightarrow> int \<Rightarrow> int) \<Rightarrow> CubeState
     \<Rightarrow> py_exc + CubeState" where
  "turn_body ccyc cg ecyc eg ns =
     (if (\<exists>p \<in> set ccyc. length (corner_perm ns) \<le> p \<or> length (corner_orient ns) \<le> p)
         \<or> (\<exists>p \<in> set ecyc. length (edge_perm ns) \<le> p \<or> length (edge_orient ns) \<le> p)
      then Inl index_error
      else Inr \<lparr>corner_perm = cycle_loop ccyc keep (corner_perm ns),
                corner_orient = cycle_loop ccyc cg (corner_orient ns),
                edge_perm = cycle_loop ecyc keep (edge_perm ns),
                edge_orient = cycle_loop ecyc eg (edge_orient ns)\<rparr>)"

definition r_body :: "CubeState \<Rightarrow> py_exc + CubeState" where
  "r_body = turn_body [0, 3, 7, 4] keep [0, 8, 4, 11] keep"

definition u_body :: "CubeState \<Rightarrow> py_exc + CubeState" where
  "u_body = turn_body [0, 1, 2, 3] keep [0, 1, 2, 3] keep"

definition f_body :: "CubeState \<Rightarrow> py_exc + CubeState" where
  "f_body = turn_body [0, 4, 5, 1] twist [1, 8, 5, 9] flip_uf_df"

definition apply_r_move :: "CubeState \<Rightarrow> py_exc + CubeState" where
  "apply_r_move s = and_then (clone s) r_body"

definition apply_u_move :: "CubeState \<Rightarrow> py_exc + CubeState" where
  "apply_u_move s = and_then (clone s) u_body"

definition apply_f_move :: "CubeState \<Rightarrow> py_exc + CubeState" where
  "apply_f_move s = and_then (clone s) f_body"

definition twice :: "(CubeState \<Rightarrow> py_exc + CubeState) \<Rightarrow> CubeState \<Rightarrow> py_exc + CubeState" where
  "twice t s = and_then (t s) t"

definition thrice :: "(CubeState \<Rightarrow> py_exc + CubeState) \<Rightarrow> CubeState \<Rightarrow> py_exc + CubeState" where
  "thrice t s = and_then (and_then (t s) t) t"

text \<open>\<open>CubeState.apply_move\<close>: the chain of comparisons, then \<open>self.clone()\<close> for the rest.\<close>

definition apply_move :: "CubeState \<Rightarrow> Move \<Rightarrow> py_exc + CubeState" where
  "apply_move s m =
     (if m = R then apply_r_move s
      else if m = Rp then thrice apply_r_move s
      else if m = R2 then twice apply_r_move s
      else if m = U then apply_u_move s
      else if m = Up then thrice apply_u_move s
      else if m = U2 then twice apply_u_move s
      else if m = F then apply_f_move s
      else if m = Fp then thrice apply_f_move s
      else if m = F2 then twice apply_f_move s
      else if m = wide_r then apply_r_move s
      else if m = wide_rp then thrice apply_r_move s
      else if m = wide_r2 then twice apply_r_move s
      else if m = wide_f then apply_f_move s
      else if m = wide_fp then thrice apply_f_move s
      else if m = wide_f2 then twice apply_f_move s
      else if m = wide_u then apply_u_move s
      else if m = wide_up then thrice apply_u_move s
      else if m = wide_u2 then twice apply_u_move s
      else clone s)"

subsection \<open>Indexing\<close>

text \<open>
  Indexing a Python list or a numpy array with an integer \<open>j\<close>: a negative index counts
  from the end, an index outside \<open>-n..n-1\<close> raises \<open>IndexError\<close>.
\<close>

definition py_index :: "nat \<Rightarrow> int \<Rightarrow> nat option" where
  "py_index n j =
     (if 0 \<le> j \<and> j < int n then Some (nat j)
      else if - int n \<le> j \<and> j < 0 then Some (nat (int n + j))
      else None)"


subsection \<open>Facelet conversion\<close>

text \<open>
  A facelet array is a list of 54 colour strings.  A \<open>ColorScheme\<close> has one colour per
  face; \<open>scheme_color scheme f\<close> is \<open>getattr(scheme, centers[f])\<close> for the face number
  \<open>f\<close> in the order \<open>U, R, F, D, L, B\<close>.
\<close>

record ColorScheme =
  color_U :: string
  color_D :: string
  color_F :: string
  color_B :: string
  color_R :: string
  color_L :: string

definition scheme_color :: "ColorScheme \<Rightarrow> nat \<Rightarrow> string" where
  "scheme_color scheme f =
     [color_U scheme, color_R scheme, color_F scheme,
      color_D scheme, color_L scheme, color_B scheme] ! f"

definition center_positions :: "nat list" where
  "center_positions = [4, 13, 22, 31, 40, 49]"

definition corner_facelets :: "(nat \<times> nat \<times> nat \<times> nat \<times> nat \<times> nat) list" where
  "corner_facelets =
     [(0, 0, 1, 0, 2, 2), (0, 2, 2, 0, 4, 2), (0, 8, 4, 0, 5, 2), (0, 6, 5, 0, 1, 2),
      (3, 2, 2, 8, 1, 6), (3, 0, 4, 8, 2, 6), (3, 6, 5, 8, 4, 6), (3, 8, 1, 8, 5, 6)]"

definition edge_facelets :: "(nat \<times> nat \<times> nat \<times> nat) list" where
  "edge_facelets =
     [(0, 1, 1, 1), (0, 5, 2, 1), (0, 7, 4, 1), (0, 3, 5, 1),
      (3, 1, 1, 7), (3, 5, 2, 7), (3, 7, 4, 7), (3, 3, 5, 7),
      (2, 5, 1, 3), (2, 3, 4, 5), (4, 3, 5, 5), (5, 3, 1, 5)]"

text \<open>
  One round of the corner loop of \<open>to_facelets\<close>.  \<open>self.corner_perm[i]\<close> indexes the
  table \<open>corner_facelets\<close>; an index out of range raises \<open>IndexError\<close>.
\<close>

definition fill_corner :: "ColorScheme \<Rightarrow> CubeState \<Rightarrow> nat \<Rightarrow> string list \<Rightarrow> py_exc + string list" where
  "fill_corner scheme st i facelets =
     (if length (corner_perm st) \<le> i \<or> length (corner_orient st) \<le> i then Inl index_error
      else case py_index (length corner_facelets) (corner_perm st ! i) of
        None \<Rightarrow> Inl index_error
      | Some corner_pos \<Rightarrow>
          let orientation = corner_orient st ! i;
              (sf1, sp1, sf2, sp2, sf3, sp3) = corner_facelets ! corner_pos;
              solved_colors = [scheme_color scheme sf1, scheme_color scheme sf2,
                               scheme_color scheme sf3];
              oriented_colors = map (\<lambda>j. solved_colors ! nat ((j - orientation) mod 3)) [0, 1, 2];
              (f1, p1, f2, p2, f3, p3) = corner_facelets ! i
          in Inr (facelets[f1 * 9 + p1 := oriented_colors ! 0,
                           f2 * 9 + p2 := oriented_colors ! 1,
                           f3 * 9 + p3 := oriented_colors ! 2]))"

text \<open>One round of the edge loop of \<open>to_facelets\<close>.\<close>

definition fill_edge :: "ColorScheme \<Rightarrow> CubeState \<Rightarrow> nat \<Rightarrow> string list \<Rightarrow> py_exc + string list" where
  "fill_edge scheme st i facelets =
     (if length (edge_perm st) \<le> i \<or> length (edge_orient st) \<le> i then Inl index_error
      else case py_index (length edge_facelets) (edge_perm st ! i) of
        None \<Rightarrow> Inl index_error
      | Some edge_pos \<Rightarrow>
          let orientation = edge_orient st ! i;
              (sf1, sp1, sf2, sp2) = edge_facelets ! edge_pos;
              solved_colors = [scheme_color scheme sf1, scheme_color scheme sf2];
              solved_colors = (if orientation = 1 then [solved_colors ! 1, solved_colors ! 0]
                               else solved_colors);
              (f1, p1, f2, p2) = edge_facelets ! i
          in Inr (facelets[f1 * 9 + p1 := solved_colors ! 0,
                           f2 * 9 + p2 := solved_colors ! 1]))"

text \<open>A loop over indices whose step may raise.\<close>

fun fill_all :: "(nat \<Rightarrow> string list \<Rightarrow> py_exc + string list) \<Rightarrow> nat list \<Rightarrow> string list
    \<Rightarrow> py_exc + string list" where
  "fill_all step [] facelets = Inr facelets"
| "fill_all step (i # is) facelets = and_then (step i facelets) (fill_all step is)"

text \<open>\<open>CubeState.to_facelets\<close>: the centres, then the corners, then the edges.\<close>

definition to_facelets :: "CubeState \<Rightarrow> ColorScheme \<Rightarrow> py_exc + string list" where
  "to_facelets st scheme =
     (let facelets = replicate 54 [];
          facelets = fold (\<lambda>i fs. fs[center_positions ! i := scheme_color scheme i]) [0..<6] facelets
      in and_then (fill_all (fill_corner scheme st) [0..<8] facelets)
           (fill_all (fill_edge scheme st) [0..<12]))"

text \<open>The decimal digits of a natural number, for the messages that print one.\<close>

function str_nat :: "nat \<Rightarrow> string" where
  "str_nat n = (if n < 10 then [char_of (48 + n)] else str_nat (n div 10) @ [char_of (48 + n mod 10)])"
  by pat_completeness auto
termination
  by (relation "measure id") auto

text \<open>
  The search of \<open>from_facelets\<close> for the solved corner that three colours belong to:
  the corners \<open>j\<close> in order, for each the rotations 0, 1, 2 in order, the first match
  wins.
\<close>

definition match_corner :: "string list \<Rightarrow> string list \<Rightarrow> (nat \<times> nat) option" where
  "match_corner centers colors =
     find (\<lambda>(j, orient).
            (case corner_facelets ! j of (sf1, sp1, sf2, sp2, sf3, sp3) \<Rightarrow>
               map (\<lambda>k. colors ! ((k + orient) mod 3)) [0, 1, 2]
                 = [centers ! sf1, centers ! sf2, centers ! sf3]))
       (concat (map (\<lambda>j. map (\<lambda>orient. (j, orient)) [0..<3]) [0..<length corner_facelets]))"

text \<open>The search for the solved edge: equal colours give orientation 0, swapped colours 1.\<close>

definition match_edge :: "string list \<Rightarrow> string list \<Rightarrow> (nat \<times> nat) option" where
  "match_edge centers colors =
     find (\<lambda>(j, orient).
            (case edge_facelets ! j of (sf1, sp1, sf2, sp2) \<Rightarrow>
               if orient = 0 then colors = [centers ! sf1, centers ! sf2]
               else colors = [centers ! sf2, centers ! sf1]))
       (concat (map (\<lambda>j. map (\<lambda>orient. (j, orient)) [0..<2]) [0..<length edge_facelets]))"

text \<open>The corner loop and the edge loop of \<open>from_facelets\<close>; both collect \<open>(perm, orient)\<close>.\<close>

fun read_corners :: "string list \<Rightarrow> string list \<Rightarrow> nat list \<Rightarrow> py_exc + (int list \<times> int list)" where
  "read_corners facelets centers [] = Inr ([], [])"
| "read_corners facelets centers (i # is) =
     (case corner_facelets ! i of (f1, p1, f2, p2, f3, p3) \<Rightarrow>
        (case match_corner centers
                [facelets ! (f1 * 9 + p1), facelets ! (f2 * 9 + p2), facelets ! (f3 * 9 + p3)] of
           None \<Rightarrow> Inl (Exc ValueError (''Invalid corner at position '' @ str_nat i))
         | Some (solved_corner, orientation) \<Rightarrow>
             and_then (read_corners facelets centers is)
               (\<lambda>(perm, orient). Inr (int solved_corner # perm, int orientation # orient))))"

fun read_edges :: "string list \<Rightarrow> string list \<Rightarrow> nat list \<Rightarrow> py_exc + (int list \<times> int list)" where
  "read_edges facelets centers [] = Inr ([], [])"
| "read_edges facelets centers (i # is) =
     (case edge_facelets ! i of (f1, p1, f2, p2) \<Rightarrow>
        (case match_edge centers [facelets ! (f1 * 9 + p1), facelets ! (f2 * 9 + p2)] of
           None \<Rightarrow> Inl (Exc ValueError (''Invalid edge at position '' @ str_nat i))
         | Some (solved_edge, orientation) \<Rightarrow>
             and_then (read_edges facelets centers is)
               (\<lambda>(perm, orient). Inr (int solved_edge # perm, int orientation # orient))))"

text \<open>\<open>CubeState.from_facelets\<close>; it ends in the constructor, called with four lists.\<close>

definition from_facelets :: "string list \<Rightarrow> py_exc + CubeState" where
  "from_facelets facelets =
     (if length facelets \<noteq> 54
      then Inl (Exc ValueError (''Expected 54 facelets, got '' @ str_nat (length facelets)))
      else
        let centers = map (\<lambda>p. facelets ! p) center_positions
        in and_then (read_corners facelets centers [0..<8]) (\<lambda>(corner_perm, corner_orient).
           and_then (read_edges facelets centers [0..<12]) (\<lambda>(edge_perm, edge_orient).
             CubeState_init (PyList corner_perm) (PyList corner_orient)
                            (PyList edge_perm) (PyList edge_orient))))"

section \<open>Validators (cubist/core/validators.py)\<close>

text \<open>
  The inner loop of \<open>_permutation_parity\<close>:
  \<^verbatim>\<open>while not visited[j]: visited[j] = True; j = perm[j]; cycle_length += 1\<close>.
  Every round marks one more position, so the loop ends.
\<close>

function cycle_walk :: "int list \<Rightarrow> bool list \<Rightarrow> int \<Rightarrow> nat \<Rightarrow> py_exc + (bool list \<times> nat)" where
  "cycle_walk perm visited j len =
     (case py_index (length visited) j of
        None \<Rightarrow> Inl index_error
      | Some k \<Rightarrow>
          if visited ! k then Inr (visited, len)
          else (case py_index (length perm) j of
                  None \<Rightarrow> Inl index_error
                | Some k' \<Rightarrow> cycle_walk perm (visited[k := True]) (perm ! k') (len + 1)))"
  by pat_completeness auto
termination
proof (relation "measure (\<lambda>(perm, visited, j, len). length (filter Not visited))")
  show "Wellfounded.wf (measure (\<lambda>(perm, visited, j, len). length (filter Not visited)))"
    by simp
next
  fix perm :: "int list" and visited :: "bool list" and j :: int and len :: nat and k k' :: nat
  assume k: "py_index (length visited) j = Some k" and nv: "\<not> visited ! k"
  have kl: "k < length visited"
    using k by (auto simp: py_index_def split: if_splits)
  define xs where "xs = take k visited"
  define ys where "ys = drop (Suc k) visited"
  have lx: "length xs = k"
    using kl by (simp add: xs_def)
  have v: "visited = xs @ False # ys"
    using kl nv id_take_nth_drop [of k visited] by (simp add: xs_def ys_def)
  have "visited[k := True] = xs @ True # ys"
    using lx by (subst v) (simp add: list_update_append)
  then have "length (filter Not (visited[k := True])) < length (filter Not visited)"
    by (subst (2) v) simp
  then show "((perm, visited[k := True], perm ! k', len + 1), (perm, visited, j, len))
        \<in> measure (\<lambda>(perm, visited, j, len). length (filter Not visited))"
    by simp
qed

text \<open>The outer loop of \<open>_permutation_parity\<close>, over \<open>range(n)\<close>; \<open>parity ^= 1\<close> flips 0 and 1.\<close>

fun parity_loop :: "int list \<Rightarrow> nat list \<Rightarrow> bool list \<Rightarrow> nat \<Rightarrow> py_exc + nat" where
  "parity_loop perm [] visited parity = Inr parity"
| "parity_loop perm (i # is) visited parity =
     (if \<not> visited ! i then
        (case cycle_walk perm visited (int i) 0 of
           Inl e \<Rightarrow> Inl e
         | Inr (visited', cycle_length) \<Rightarrow>
             parity_loop perm is visited'
               (if cycle_length mod 2 = 0 then (if parity = 0 then 1 else 0) else parity))
      else parity_loop perm is visited parity)"

definition permutation_parity :: "int list \<Rightarrow> py_exc + nat" where
  "permutation_parity perm =
     parity_loop perm [0..<length perm] (replicate (length perm) False) 0"

text \<open>\<open>_is_valid_permutation\<close>: the length is \<open>n\<close> and the set of entries is \<open>set(range(n))\<close>.\<close>

definition is_valid_permutation :: "int list \<Rightarrow> nat \<Rightarrow> bool" where
  "is_valid_permutation perm n \<longleftrightarrow> length perm = n \<and> set (map int [0..<n]) = set perm"

text \<open>
  A legal state: the four invariants of the data model, with the permutation test and
  the parity of the validators.
\<close>

definition legal :: "CubeState \<Rightarrow> bool" where
  "legal s \<longleftrightarrow>
     is_valid_permutation (corner_perm s) 8 \<and> is_valid_permutation (edge_perm s) 12 \<and>
     sum_list (corner_orient s) mod 3 = 0 \<and>
     sum_list (edge_orient s) mod 2 = 0 \<and>
     (case (permutation_parity (corner_perm s), permutation_parity (edge_perm s)) of
        (Inr p, Inr q) \<Rightarrow> p = q
      | _ \<Rightarrow> False)"

subsection \<open>Validation of a facelet array\<close>

text \<open>
  \<open>Counter(facelets)\<close>: the colours in the order of their first occurrence, each with the
  number of its occurrences.
\<close>

fun counter_add :: "'a \<Rightarrow> ('a \<times> nat) list \<Rightarrow> ('a \<times> nat) list" where
  "counter_add x [] = [(x, 1)]"
| "counter_add x ((y, n) # rest) =
     (if x = y then (y, Suc n) # rest else (y, n) # counter_add x rest)"

definition Counter :: "'a list \<Rightarrow> ('a \<times> nat) list" where
  "Counter xs = fold counter_add xs []"

definition wrong_count_message :: "string \<Rightarrow> nat \<Rightarrow> string" where
  "wrong_count_message color count =
     ''Color '' @ color @ '' appears '' @ str_nat count @ '' times, expected 9''"

text \<open>
  The checks of \<open>validate_facelets\<close> inside \<open>try\<close>, on the state \<open>from_facelets\<close> gave.  An
  exception other than \<open>ValueError\<close> is not caught.
\<close>

definition invariant_errors :: "CubeState \<Rightarrow> py_exc + string list" where
  "invariant_errors cube_state =
     (let errors = (if sum_list (corner_orient cube_state) mod 3 \<noteq> 0
                    then [''Invalid corner twist sum (must be divisible by 3)''] else []);
          errors = errors @ (if sum_list (edge_orient cube_state) mod 2 \<noteq> 0
                    then [''Invalid edge flip sum (must be even)''] else [])
      in and_then (permutation_parity (corner_perm cube_state)) (\<lambda>corner_parity.
         and_then (permutation_parity (edge_perm cube_state)) (\<lambda>edge_parity.
           Inr (errors @ (if corner_parity \<noteq> edge_parity
                          then [''Corner and edge permutation parities must match''] else [])))))"

definition validate_facelets :: "string list \<Rightarrow> py_exc + (bool \<times> string list)" where
  "validate_facelets facelets =
     (if length facelets \<noteq> 54
      then Inr (False, [''Expected 54 facelets, got '' @ str_nat (length facelets)])
      else
        let color_counts = Counter facelets;
            errors = (if length color_counts \<noteq> 6
                      then [''Expected exactly 6 different colors, got ''
                              @ str_nat (length color_counts)]
                      else []);
            errors = errors @ concat (map (\<lambda>(color, count).
                        if count \<noteq> 9 then [wrong_count_message color count] else [])
                      color_counts)
        in if errors \<noteq> [] then Inr (False, errors)
           else (case from_facelets facelets of
                   Inl e \<Rightarrow>
                     if exc_class_of e = ValueError
                     then Inr (False, [''Invalid cube configuration: '' @ exc_message e])
                     else Inl e
                 | Inr cube_state \<Rightarrow>
                     and_then (invariant_errors cube_state)
                       (\<lambda>errors. Inr (errors = [], errors))))"

subsection \<open>Notation strings\<close>

text \<open>
  Strings are lists of ASCII characters.  \<open>is_space\<close> is the whitespace that
  \<open>str.strip\<close> removes and that the pattern \<open>\s+\<close> matches, within ASCII.
\<close>

definition is_space :: "char \<Rightarrow> bool" where
  "is_space c \<longleftrightarrow>
     c \<in> {CHR 0x09, CHR 0x0A, CHR 0x0B, CHR 0x0C, CHR 0x0D,
           CHR 0x1C, CHR 0x1D, CHR 0x1E, CHR 0x1F, CHR '' ''}"

definition strip :: "string \<Rightarrow> string" where
  "strip s = rev (dropWhile is_space (rev (dropWhile is_space s)))"

text \<open>The table of \<open>Move.from_string\<close>.\<close>

definition string_map :: "(string \<times> Move) list" where
  "string_map =
    [(''R'', R), (''R'' @ [CHR 0x27], Rp), (''R2'', R2),
     (''L'', L), (''L'' @ [CHR 0x27], Lp), (''L2'', L2),
     (''U'', U), (''U'' @ [CHR 0x27], Up), (''U2'', U2),
     (''D'', D), (''D'' @ [CHR 0x27], Dp), (''D2'', D2),
     (''F'', F), (''F'' @ [CHR 0x27], Fp), (''F2'', F2),
     (''B'', B), (''B'' @ [CHR 0x27], Bp), (''B2'', B2),
     (''r'', wide_r), (''r'' @ [CHR 0x27], wide_rp), (''r2'', wide_r2),
     (''l'', wide_l), (''l'' @ [CHR 0x27], wide_lp), (''l2'', wide_l2),
     (''u'', wide_u), (''u'' @ [CHR 0x27], wide_up), (''u2'', wide_u2),
     (''d'', wide_d), (''d'' @ [CHR 0x27], wide_dp), (''d2'', wide_d2),
     (''f'', wide_f), (''f'' @ [CHR 0x27], wide_fp), (''f2'', wide_f2),
     (''b'', wide_b), (''b'' @ [CHR 0x27], wide_bp), (''b2'', wide_b2)]"

definition from_string :: "string \<Rightarrow> py_exc + Move" where
  "from_string move_str =
     (let t = strip move_str in
      case map_of string_map t of
        None \<Rightarrow> Inl (Exc ValueError (''Invalid move notation: '' @ t))
      | Some m \<Rightarrow> Inr m)"

subsection \<open>Move sequences\<close>

text \<open>A \<open>MoveSequence\<close> is the list of its moves.  \<open>MoveSequence.__str__\<close> joins the tokens with one space.\<close>

fun join_space :: "string list \<Rightarrow> string" where
  "join_space [] = []"
| "join_space [t] = t"
| "join_space (t # u # ts) = t @ '' '' @ join_space (u # ts)"

definition seq_str :: "Move list \<Rightarrow> string" where
  "seq_str moves = join_space (map Move_str moves)"

text \<open>
  \<open>re.split(r'\s+', s)\<close>: the pieces of \<open>s\<close> between the maximal runs of whitespace,
  the empty pieces at both ends included.  \<open>cur\<close> is the piece being read, reversed.
\<close>

function re_split_ws_aux :: "string \<Rightarrow> string \<Rightarrow> string list" where
  "re_split_ws_aux cur [] = [rev cur]"
| "re_split_ws_aux cur (c # cs) =
     (if is_space c then rev cur # re_split_ws_aux [] (dropWhile is_space cs)
      else re_split_ws_aux (c # cur) cs)"
  by pat_completeness auto
termination
  by (relation "measure (\<lambda>(cur, s). length s)")
     (auto simp: length_dropWhile_le less_Suc_eq_le)

definition re_split_ws :: "string \<Rightarrow> string list" where
  "re_split_ws s = re_split_ws_aux [] s"

text \<open>The loop of \<open>MoveSequence.parse\<close> over the tokens: the first bad token raises.\<close>

fun parse_tokens :: "string list \<Rightarrow> py_exc + Move list" where
  "parse_tokens [] = Inr []"
| "parse_tokens (token # tokens) =
     (case from_string token of
        Inl e \<Rightarrow> Inl (Exc ValueError (''Invalid move sequence: '' @ exc_message e))
      | Inr m \<Rightarrow> and_then (parse_tokens tokens) (\<lambda>ms. Inr (m # ms)))"

definition parse :: "string \<Rightarrow> py_exc + Move list" where
  "parse move_string =
     (if strip move_string = [] then Inr []
      else parse_tokens
             (map strip (filter (\<lambda>token. strip token \<noteq> []) (re_split_ws (strip move_string)))))"

text \<open>\<open>MoveSequence.inverse\<close>.\<close>

definition inverse_seq :: "Move list \<Rightarrow> Move list" where
  "inverse_seq moves = map inverse_move (rev moves)"

subsection \<open>Simplification\<close>

text \<open>\<open>_get_face\<close>: the first character of the token.  \<open>_get_turn_count\<close>: 1, -1 or 2.\<close>

definition get_face :: "Move \<Rightarrow> char" where
  "get_face m = hd (Move_str m)"

definition get_turn_count :: "Move \<Rightarrow> int" where
  "get_turn_count m =
     (if CHR 0x27 \<in> set (Move_str m) then - 1
      else if CHR ''2'' \<in> set (Move_str m) then 2
      else 1)"

definition create_move :: "char \<Rightarrow> int \<Rightarrow> py_exc + Move" where
  "create_move face count =
     (if count = 1 then from_string [face]
      else if count = - 1 then from_string ([face] @ [CHR 0x27])
      else if count = 2 then from_string ([face] @ ''2'')
      else Inl (Exc ValueError ''Invalid turn count''))"

text \<open>
  The inner loop of \<open>simplify\<close>:
  \<^verbatim>\<open>while j < len(self.moves) and self._get_face(self.moves[j]) == face: count += ...; j += 1\<close>.
  It returns the count and the moves from index \<open>j\<close> on.
\<close>

fun look_ahead :: "char \<Rightarrow> int \<Rightarrow> Move list \<Rightarrow> int \<times> Move list" where
  "look_ahead face count [] = (count, [])"
| "look_ahead face count (m # ms) =
     (if get_face m = face then look_ahead face (count + get_turn_count m) ms
      else (count, m # ms))"

lemma look_ahead_length: "length (snd (look_ahead face count ms)) \<le> length ms"
  by (induction ms arbitrary: count) (auto intro: le_SucI)

lemma look_ahead_rest:
  "(count', rest) = look_ahead face count ms \<Longrightarrow> length rest < Suc (length ms)"
  using look_ahead_length [of face count ms] by (metis snd_conv le_imp_less_Suc)

text \<open>The outer loop of \<open>simplify\<close>, on the moves from index \<open>i\<close> on.\<close>

function simplify_loop :: "Move list \<Rightarrow> Move list \<Rightarrow> py_exc + Move list" where
  "simplify_loop [] simplified = Inr simplified"
| "simplify_loop (current_move # ms) simplified =
     (let face = get_face current_move;
          (count, rest) = look_ahead face (get_turn_count current_move) ms;
          count = count mod 4;
          count = (if count = 3 then - 1 else count)
      in if count \<noteq> 0
         then and_then (create_move face count)
                (\<lambda>mv. simplify_loop rest (simplified @ [mv]))
         else simplify_loop rest simplified)"
  by pat_completeness auto
termination
  by (relation "measure (\<lambda>(ms, simplified). length ms)") (simp_all add: look_ahead_rest)

definition simplify :: "Move list \<Rightarrow> py_exc + Move list" where
  "simplify moves = (if moves = [] then Inr [] else simplify_loop moves [])"


subsection \<open>The run decomposition that \<open>simplify\<close> is specified by\<close>

text \<open>
  The maximal runs of consecutive moves whose tokens start with the same character,
  and what one run is coalesced to: the quarter-turn counts are summed modulo 4; a total of
  0 drops the run, 1 gives the quarter turn, 2 the half turn and 3 the inverse
  quarter turn of the run's face, looked up in the catalogue by face character and turn
  count.
\<close>

function face_runs :: "Move list \<Rightarrow> Move list list" where
  "face_runs [] = []"
| "face_runs (m # ms) =
     (m # takeWhile (\<lambda>x. get_face x = get_face m) ms)
       # face_runs (dropWhile (\<lambda>x. get_face x = get_face m) ms)"
  by pat_completeness auto
termination
  by (relation "measure length") (auto simp: length_dropWhile_le less_Suc_eq_le)

definition turn_of_face :: "char \<Rightarrow> int \<Rightarrow> Move option" where
  "turn_of_face face k = find (\<lambda>m. get_face m = face \<and> get_turn_count m = k) catalogue"

definition coalesce :: "Move list \<Rightarrow> Move list" where
  "coalesce run =
     (let face = get_face (hd run);
          total = sum_list (map get_turn_count run) mod 4
      in if total = 0 then []
         else case turn_of_face face (if total = 1 then 1 else if total = 2 then 2 else - 1) of
                Some m \<Rightarrow> [m]
              | None \<Rightarrow> [])"


section \<open>Scramble generator (cubist/core/scramble.py)\<close>

text \<open>
  The dictionaries of \<open>generate_scramble\<close> as association lists in the order of the
  source; \<open>faces\<close> is \<open>list(move_groups.keys())\<close>.
\<close>

definition move_groups :: "(char \<times> Move list) list" where
  "move_groups =
     [(CHR ''R'', [R, Rp, R2]), (CHR ''L'', [L, Lp, L2]), (CHR ''U'', [U, Up, U2]),
      (CHR ''D'', [D, Dp, D2]), (CHR ''F'', [F, Fp, F2]), (CHR ''B'', [B, Bp, B2])]"

definition opposite_faces :: "(char \<times> char) list" where
  "opposite_faces =
     [(CHR ''R'', CHR ''L''), (CHR ''L'', CHR ''R''), (CHR ''U'', CHR ''D''),
      (CHR ''D'', CHR ''U''), (CHR ''F'', CHR ''B''), (CHR ''B'', CHR ''F'')]"

definition faces :: "char list" where
  "faces = map fst move_groups"

text \<open>
  \<open>random.choice(seq)\<close> returns one entry of a non-empty sequence and raises
  \<open>IndexError\<close> on an empty one.  The random source is a function from the number of the
  draw to a natural number; the entry chosen is the one at that number modulo the
  length, so every entry can be the outcome.
\<close>

definition choice :: "'a list \<Rightarrow> nat \<Rightarrow> py_exc + 'a" where
  "choice seq draw =
     (if seq = [] then Inl (Exc IndexError ''Cannot choose from an empty sequence'')
      else Inr (seq ! (draw mod length seq)))"

text \<open>The inner loop over \<open>faces\<close> that collects \<open>valid_faces\<close>.\<close>

definition valid_faces :: "char option \<Rightarrow> char option \<Rightarrow> char list" where
  "valid_faces last_face second_last_face =
     filter (\<lambda>face.
        \<not> (Some face = last_face) \<and>
        \<not> (second_last_face \<noteq> None \<and> last_face \<noteq> None \<and>
           Some face = second_last_face \<and> map_of opposite_faces face = last_face))
       faces"

definition group_of :: "char \<Rightarrow> py_exc + Move list" where
  "group_of face =
     (case map_of move_groups face of
        None \<Rightarrow> Inl (Exc KeyError [face])
      | Some g \<Rightarrow> Inr g)"

text \<open>
  The loop \<open>for _ in range(length)\<close>: \<open>n\<close> rounds are left, \<open>i\<close> rounds are done; round
  \<open>i\<close> takes the draws \<open>2 * i\<close> and \<open>2 * i + 1\<close>.
\<close>

fun scramble_loop ::
  "nat \<Rightarrow> nat \<Rightarrow> (nat \<Rightarrow> nat) \<Rightarrow> char option \<Rightarrow> char option \<Rightarrow> Move list \<Rightarrow> py_exc + Move list" where
  "scramble_loop 0 i rnd last_face second_last_face scramble_moves = Inr scramble_moves"
| "scramble_loop (Suc n) i rnd last_face second_last_face scramble_moves =
     and_then (choice (valid_faces last_face second_last_face) (rnd (2 * i))) (\<lambda>chosen_face.
     and_then (group_of chosen_face) (\<lambda>g.
     and_then (choice g (rnd (2 * i + 1))) (\<lambda>chosen_move.
       scramble_loop n (i + 1) rnd (Some chosen_face) last_face
         (scramble_moves @ [chosen_move]))))"

definition generate_scramble :: "int \<Rightarrow> (nat \<Rightarrow> nat) \<Rightarrow> py_exc + Move list" where
  "generate_scramble len rnd =
     (if len \<le> 0 then Inr []
      else scramble_loop (nat len) 0 rnd None None [])"

text \<open>The 18 face turns, and the two patterns a scramble must not show.\<close>

definition base_moves :: "Move list" where
  "base_moves = [R, Rp, R2, L, Lp, L2, U, Up, U2, D, Dp, D2, F, Fp, F2, B, Bp, B2]"

definition no_adjacent_same_face :: "Move list \<Rightarrow> bool" where
  "no_adjacent_same_face ms \<longleftrightarrow>
     (\<forall>i. i + 1 < length ms \<longrightarrow> get_face (ms ! i) \<noteq> get_face (ms ! (i + 1)))"

definition no_sandwich :: "Move list \<Rightarrow> bool" where
  "no_sandwich ms \<longleftrightarrow>
     (\<forall>i. i + 2 < length ms \<longrightarrow>
        \<not> (get_face (ms ! i) = get_face (ms ! (i + 2)) \<and>
           map_of opposite_faces (get_face (ms ! i)) = Some (get_face (ms ! (i + 1)))))"

section \<open>Search solver (cubist/solvers/research_ida.py)\<close>

text \<open>
  \<open>sum(1 for i, pos in enumerate(perm) if pos != i)\<close>: the number of entries that differ
  from their index.
\<close>

definition out_of_place :: "int list \<Rightarrow> int" where
  "out_of_place perm = int (length (filter (\<lambda>(i, pos). pos \<noteq> int i) (List.enumerate 0 perm)))"

text \<open>\<open>IDAStarSolver._heuristic\<close>; \<open>//\<close> is the floor division of integers.\<close>

definition heuristic :: "CubeState \<Rightarrow> int" where
  "heuristic state =
     (if is_solved state then 0
      else
        let h = 0;
            corner_twist = sum_list (corner_orient state);
            h = (if corner_twist > 0 then max h ((corner_twist + 2) div 3) else h);
            edge_flip = sum_list (edge_orient state);
            h = (if edge_flip > 0 then max h ((edge_flip + 1) div 2) else h);
            corner_out_of_place = out_of_place (corner_perm state);
            h = (if corner_out_of_place > 0 then max h ((corner_out_of_place + 2) div 3) else h);
            edge_out_of_place = out_of_place (edge_perm state);
            h = (if edge_out_of_place > 0 then max h ((edge_out_of_place + 3) div 4) else h)
        in max h 1)"

text \<open>The number of indices \<open>i\<close> with \<open>perm[i] != i\<close>, as the specification counts them.\<close>

definition misplaced :: "int list \<Rightarrow> nat" where
  "misplaced perm = card {i. i < length perm \<and> perm ! i \<noteq> int i}"


definition max_time :: real where
  "max_time = 300"

text \<open>\<open>_is_redundant\<close>: same face, or \<open>opposite_faces.get(face1) == face2\<close>.\<close>

definition is_redundant :: "Move \<Rightarrow> Move \<Rightarrow> bool" where
  "is_redundant move1 move2 =
     (let face1 = hd (Move_str move1);
          face2 = hd (Move_str move2)
      in if face1 = face2 then True
         else if map_of opposite_faces face1 = Some face2 then True
         else False)"

text \<open>
  What the search reads from outside: the cancellation flag, which another thread may
  set, and the clock.  Each place of the code that reads them is a probe; the probes
  are numbered in the order the code makes them, and the environment says for every
  probe whether \<open>self._cancelled\<close> reads true there and what
  \<open>time.time() - start_time\<close> is there, in seconds.
\<close>

record environment =
  cancelled_at :: "nat \<Rightarrow> bool"
  elapsed_at :: "nat \<Rightarrow> real"

text \<open>\<open>_search\<close> returns the path found or the next bound; \<open>float('inf')\<close> is \<open>\<infinity>\<close>.\<close>

datatype search_result = Found "Move list" | Bound enat




text \<open>
  \<open>_search\<close> and its loop over the moves.  The first argument is fuel: the recursion
  depth allowed; without fuel the result is \<open>None\<close>.  \<open>t\<close> is the number of the next
  probe, returned with the result.  \<open>visited\<close> holds the states of the current path:
  the state is added for the loop and removed after it, so the recursive calls get
  the set with the state and the caller keeps the set without it.
\<close>

fun search ::
    "nat \<Rightarrow> environment \<Rightarrow> nat \<Rightarrow> CubeState \<Rightarrow> nat \<Rightarrow> enat \<Rightarrow> Move list \<Rightarrow> CubeState set
       \<Rightarrow> (py_exc + search_result \<times> nat) option"
  and search_moves ::
    "nat \<Rightarrow> environment \<Rightarrow> nat \<Rightarrow> CubeState \<Rightarrow> nat \<Rightarrow> enat \<Rightarrow> Move list \<Rightarrow> CubeState set
       \<Rightarrow> Move list \<Rightarrow> enat \<Rightarrow> (py_exc + search_result \<times> nat) option"
where
  "search 0 env t state g bound path visited = None"
| "search (Suc n) env t state g bound path visited =
     (if cancelled_at env t \<or> elapsed_at env t > max_time then Some (Inr (Bound \<infinity>, t + 1))
      else
        let h = heuristic state;
            f = nat (int g + h)
        in if enat f > bound then Some (Inr (Bound (enat f), t + 1))
           else if is_solved state then Some (Inr (Found path, t + 1))
           else if state \<in> visited then Some (Inr (Bound \<infinity>, t + 1))
           else search_moves n env (t + 1) state g bound path (insert state visited)
                  base_moves \<infinity>)"
| "search_moves n env t state g bound path visited [] min_bound =
     Some (Inr (Bound min_bound, t))"
| "search_moves n env t state g bound path visited (move # moves) min_bound =
     (if path \<noteq> [] \<and> is_redundant move (last path)
      then search_moves n env t state g bound path visited moves min_bound
      else case apply_move state move of
             Inl e \<Rightarrow> Some (Inl e)
           | Inr new_state \<Rightarrow>
               (case search n env t new_state (g + 1) bound (path @ [move]) visited of
                  None \<Rightarrow> None
                | Some (Inl e) \<Rightarrow> Some (Inl e)
                | Some (Inr (Found result, t')) \<Rightarrow> Some (Inr (Found result, t'))
                | Some (Inr (Bound result, t')) \<Rightarrow>
                    search_moves n env t' state g bound path visited moves
                      (if result < min_bound then result else min_bound)))"



section \<open>Auxiliary predicates of the proofs\<close>

text \<open>A token without whitespace, as every token of the notation table is.\<close>

definition clean_token :: "string \<Rightarrow> bool" where
  "clean_token t \<longleftrightarrow> t \<noteq> [] \<and> (\<forall>c \<in> set t. \<not> is_space c)"


text \<open>
  The loop invariant of \<open>generate_scramble\<close>: \<open>last_face\<close> and \<open>second_last_face\<close> are the
  faces of the last two moves made, and the moves made so far are face turns without
  the two forbidden patterns.
\<close>

definition scramble_inv :: "Move list \<Rightarrow> char option \<Rightarrow> char option \<Rightarrow> bool" where
  "scramble_inv acc last_face second_last_face \<longleftrightarrow>
     last_face = (if acc = [] then None else Some (get_face (last acc))) \<and>
     second_last_face =
       (if length acc < 2 then None else Some (get_face (acc ! (length acc - 2)))) \<and>
     set acc \<subseteq> set base_moves \<and> no_adjacent_same_face acc \<and> no_sandwich acc"


text \<open>
  A facelet array of six colours in which \<open>W\<close> appears 8 times and \<open>Y\<close> 10 times: the
  solved pattern with the first sticker repainted.
\<close>

definition miscounted_facelets :: "string list" where
  "miscounted_facelets =
     ''Y'' # replicate 8 ''W'' @ replicate 9 ''R'' @ replicate 9 ''G'' @ replicate 9 ''Y''
       @ replicate 9 ''O'' @ replicate 9 ''B''"

text \<open>
  For the facelet round trip: the faces of a cubie in the order of the table, rotated or
  swapped as \<open>to_facelets\<close> does it; the search of \<open>from_facelets\<close> run on face numbers
  instead of colours; and \<open>to_facelets\<close> as one list of writes into the array.
\<close>

definition corner_faces :: "nat \<Rightarrow> nat list" where
  "corner_faces j = (case corner_facelets ! j of (sf1, sp1, sf2, sp2, sf3, sp3) \<Rightarrow> [sf1, sf2, sf3])"

definition edge_faces :: "nat \<Rightarrow> nat list" where
  "edge_faces j = (case edge_facelets ! j of (sf1, sp1, sf2, sp2) \<Rightarrow> [sf1, sf2])"

definition rotated_faces :: "nat list \<Rightarrow> int \<Rightarrow> nat list" where
  "rotated_faces fs orientation = map (\<lambda>k. fs ! nat ((k - orientation) mod 3)) [0, 1, 2]"

definition swapped_faces :: "nat list \<Rightarrow> int \<Rightarrow> nat list" where
  "swapped_faces fs orientation = (if orientation = 1 then [fs ! 1, fs ! 0] else fs)"

definition corner_candidates :: "(nat \<times> nat) list" where
  "corner_candidates = concat (map (\<lambda>j. map (\<lambda>orient. (j, orient)) [0..<3]) [0..<length corner_facelets])"

definition edge_candidates :: "(nat \<times> nat) list" where
  "edge_candidates = concat (map (\<lambda>j. map (\<lambda>orient. (j, orient)) [0..<2]) [0..<length edge_facelets])"

definition match_corner_faces :: "nat list \<Rightarrow> (nat \<times> nat) option" where
  "match_corner_faces fs =
     find (\<lambda>(j, orient). map (\<lambda>k. fs ! ((k + orient) mod 3)) [0, 1, 2] = corner_faces j)
       corner_candidates"

definition match_edge_faces :: "nat list \<Rightarrow> (nat \<times> nat) option" where
  "match_edge_faces fs =
     find (\<lambda>(j, orient). if orient = 0 then fs = edge_faces j else fs = rev (edge_faces j))
       edge_candidates"

definition write_slot :: "nat \<times> string \<Rightarrow> string list \<Rightarrow> string list" where
  "write_slot w fs = fs[fst w := snd w]"

definition corner_slots :: "nat \<Rightarrow> nat list" where
  "corner_slots i =
     (case corner_facelets ! i of (f1, p1, f2, p2, f3, p3) \<Rightarrow> [f1 * 9 + p1, f2 * 9 + p2, f3 * 9 + p3])"

definition edge_slots :: "nat \<Rightarrow> nat list" where
  "edge_slots i = (case edge_facelets ! i of (f1, p1, f2, p2) \<Rightarrow> [f1 * 9 + p1, f2 * 9 + p2])"

definition corner_colors :: "ColorScheme \<Rightarrow> CubeState \<Rightarrow> nat \<Rightarrow> string list" where
  "corner_colors scheme st i =
     map (scheme_color scheme)
       (rotated_faces (corner_faces (nat (corner_perm st ! i))) (corner_orient st ! i))"

definition edge_colors :: "ColorScheme \<Rightarrow> CubeState \<Rightarrow> nat \<Rightarrow> string list" where
  "edge_colors scheme st i =
     map (scheme_color scheme)
       (swapped_faces (edge_faces (nat (edge_perm st ! i))) (edge_orient st ! i))"

definition all_slots :: "nat list" where
  "all_slots = center_positions @ concat (map corner_slots [0..<8]) @ concat (map edge_slots [0..<12])"

definition all_writes :: "ColorScheme \<Rightarrow> CubeState \<Rightarrow> (nat \<times> string) list" where
  "all_writes scheme st =
     map (\<lambda>i. (center_positions ! i, scheme_color scheme i)) [0..<6]
     @ concat (map (\<lambda>i. zip (corner_slots i) (corner_colors scheme st i)) [0..<8])
     @ concat (map (\<lambda>i. zip (edge_slots i) (edge_colors scheme st i)) [0..<12])"


text \<open>The default colour scheme of the source, and a scheme that paints two faces white.\<close>

definition white_up_and_down :: ColorScheme where
  "white_up_and_down =
     \<lparr>color_U = ''#FFFFFF'', color_D = ''#FFFFFF'', color_F = ''#009E60'',
      color_B = ''#0046AD'', color_R = ''#C41E3A'', color_L = ''#FF5800''\<rparr>"

definition default_scheme :: ColorScheme where
  "default_scheme =
     \<lparr>color_U = ''#FFFFFF'', color_D = ''#FFD500'', color_F = ''#009E60'',
      color_B = ''#0046AD'', color_R = ''#C41E3A'', color_L = ''#FF5800''\<rparr>"







section \<open>Properties of the cubie state\<close>

lemma clone_raises:
  "1 < length (corner_perm s) \<Longrightarrow> clone s = Inl ambiguous_truth_value"
  by (simp add: clone_def CubeState_init_def init_field_def and_then_def)

lemma clone_raises_shape:
  "cube_shape s \<Longrightarrow> clone s = Inl ambiguous_truth_value"
  by (simp add: clone_raises cube_shape_def)

lemma quarter_turns_raise:
  assumes "cube_shape s"
  shows "apply_r_move s = Inl ambiguous_truth_value"
    and "apply_u_move s = Inl ambiguous_truth_value"
    and "apply_f_move s = Inl ambiguous_truth_value"
  using assms
  by (simp_all add: apply_r_move_def apply_u_move_def apply_f_move_def and_then_def
      clone_raises_shape)

lemma apply_move_raises:
  "cube_shape s \<Longrightarrow> apply_move s m = Inl ambiguous_truth_value"
  by (simp add: apply_move_def twice_def thrice_def and_then_def quarter_turns_raise
      clone_raises_shape)

lemma cube_shape_solved: "cube_shape solved_state"
  by (simp add: cube_shape_def solved_state_def)

lemma solved_builds_solved_state: "solved = Inr solved_state"
  by (simp add: solved_def CubeState_init_def init_field_def and_then_def solved_state_def
      upt_conv_Cons eval_nat_numeral)

lemma is_solved_solved_state: "is_solved solved_state"
  by (simp add: is_solved_def solved_state_def upt_conv_Cons eval_nat_numeral)

lemma legal_solved: "legal solved_state"
  unfolding legal_def solved_state_def by code_simp

text \<open>
  The bodies of the quarter turns, run on a state that \<open>clone\<close> would have returned.
  Four \<open>R\<close> bodies or four \<open>U\<close> bodies restore the solved state; four \<open>F\<close> bodies leave the
  four front corners twisted, and one \<open>F\<close> body takes the twist sum from 0 to 4.
\<close>

lemma r_body_four_times:
  "and_then (and_then (and_then (r_body solved_state) r_body) r_body) r_body = Inr solved_state"
  by code_simp

lemma u_body_four_times:
  "and_then (and_then (and_then (u_body solved_state) u_body) u_body) u_body = Inr solved_state"
  by code_simp

lemma f_body_solved:
  "f_body solved_state =
     Inr \<lparr>corner_perm = [4, 0, 2, 3, 5, 1, 6, 7], corner_orient = [1, 1, 0, 0, 1, 1, 0, 0],
          edge_perm = [0, 8, 2, 3, 4, 9, 6, 7, 5, 1, 10, 11],
          edge_orient = [0, 1, 0, 0, 0, 1, 0, 0, 0, 0, 0, 0]\<rparr>"
  by code_simp

lemma f_body_breaks_twist_sum:
  "\<not> legal \<lparr>corner_perm = [4, 0, 2, 3, 5, 1, 6, 7], corner_orient = [1, 1, 0, 0, 1, 1, 0, 0],
          edge_perm = [0, 8, 2, 3, 4, 9, 6, 7, 5, 1, 10, 11],
          edge_orient = [0, 1, 0, 0, 0, 1, 0, 0, 0, 0, 0, 0]\<rparr>"
  by (simp add: legal_def)

lemma f_body_four_times:
  "and_then (and_then (and_then (f_body solved_state) f_body) f_body) f_body =
     Inr (solved_state\<lparr>corner_orient := [1, 1, 0, 0, 1, 1, 0, 0]\<rparr>)"
  by code_simp

text \<open>
  Claim C1 (invariant preservation): for every legal state and every move of the
  catalogue, \<open>apply_move\<close> returns a state that is legal again.  On the code no state is
  returned: the solved state is legal, and \<open>apply_move\<close> on it raises the \<open>ValueError\<close>
  of \<open>clone\<close>, here for the move \<open>F\<close>.
\<close>

theorem apply_move_F_on_solved_raises:
  "legal solved_state \<and> cube_shape solved_state \<and>
   apply_move solved_state F = Inl ambiguous_truth_value"
  by (simp add: legal_solved cube_shape_solved apply_move_raises)

text \<open>
  Claim C2 (inverse law): applying a move and then its inverse returns the state one
  started from.  On the code the first application already raises, here for \<open>R\<close> on
  the solved state.
\<close>

theorem move_then_inverse_on_solved_raises:
  "and_then (apply_move solved_state R) (\<lambda>t. apply_move t (inverse_move R))
     = Inl ambiguous_truth_value"
  by (simp add: cube_shape_solved apply_move_raises and_then_def)

text \<open>
  Claim C3 (unimplemented moves are no-ops, wide moves are aliases): the nine moves
  \<open>L\<close>, \<open>L'\<close>, \<open>L2\<close>, \<open>D\<close>, \<open>D'\<close>, \<open>D2\<close>, \<open>B\<close>, \<open>B'\<close>, \<open>B2\<close> return a state equal to the one
  given.  On the code the branch for these moves is \<open>self.clone()\<close>, which raises;
  here for \<open>L\<close> on the solved state.
\<close>

theorem apply_move_L_on_solved_raises:
  "apply_move solved_state L = Inl ambiguous_truth_value \<and>
   apply_move solved_state L \<noteq> Inr solved_state"
  by (simp add: cube_shape_solved apply_move_raises)

text \<open>The second half of C3 holds: a wide move takes the branch of its face turn.\<close>

lemma wide_moves_alias:
  "apply_move s wide_r = apply_move s R" "apply_move s wide_rp = apply_move s Rp"
  "apply_move s wide_r2 = apply_move s R2" "apply_move s wide_u = apply_move s U"
  "apply_move s wide_up = apply_move s Up" "apply_move s wide_u2 = apply_move s U2"
  "apply_move s wide_f = apply_move s F" "apply_move s wide_fp = apply_move s Fp"
  "apply_move s wide_f2 = apply_move s F2"
  by (simp_all add: apply_move_def)

lemma unimplemented_moves_clone:
  "m \<in> {L, Lp, L2, D, Dp, D2, B, Bp, B2, wide_l, wide_lp, wide_l2, wide_d, wide_dp, wide_d2,
        wide_b, wide_bp, wide_b2} \<Longrightarrow> apply_move s m = clone s"
  by (auto simp: apply_move_def)

section \<open>Properties of the move algebra\<close>

subsection \<open>Printing and parsing\<close>

lemma space_is_space: "is_space (CHR '' '')"
  by (simp add: is_space_def)

lemma Move_str_clean: "clean_token (Move_str m)"
  by (cases m) (simp_all add: clean_token_def is_space_def)

lemma strip_clean: "clean_token t \<Longrightarrow> strip t = t"
proof -
  assume c: "clean_token t"
  then have "dropWhile is_space t = t"
    by (cases t) (auto simp: clean_token_def)
  moreover have "dropWhile is_space (rev t) = rev t"
    using c by (cases "rev t") (auto simp: clean_token_def)
  ultimately show ?thesis by (simp add: strip_def)
qed

lemma from_string_Move_str: "from_string (Move_str m) = Inr m"
proof -
  have "map_of string_map (Move_str m) = Some m"
    by (cases m) (simp_all add: string_map_def)
  then show ?thesis
    by (simp add: from_string_def strip_clean Move_str_clean)
qed

lemma parse_tokens_Move_str: "parse_tokens (map Move_str ms) = Inr ms"
  by (induction ms) (simp_all add: from_string_Move_str and_then_def)

lemma split_clean_prefix:
  "\<forall>c \<in> set t. \<not> is_space c \<Longrightarrow> re_split_ws_aux cur (t @ rest) = re_split_ws_aux (rev t @ cur) rest"
  by (induction t arbitrary: cur) simp_all

lemma join_space_Cons:
  "ts \<noteq> [] \<Longrightarrow> join_space (t # ts) = t @ CHR '' '' # join_space ts"
  by (cases ts) simp_all

lemma join_space_starts_clean:
  "ts \<noteq> [] \<Longrightarrow> list_all clean_token ts \<Longrightarrow>
     join_space ts \<noteq> [] \<and> \<not> is_space (hd (join_space ts))"
  by (cases ts rule: join_space.cases) (auto simp: clean_token_def)

lemma split_join_space:
  "ts \<noteq> [] \<Longrightarrow> list_all clean_token ts \<Longrightarrow>
     re_split_ws_aux cur (join_space ts) = (rev cur @ hd ts) # tl ts"
proof (induction ts arbitrary: cur)
  case Nil
  then show ?case by simp
next
  case (Cons t ts)
  have t: "\<forall>c \<in> set t. \<not> is_space c"
    using Cons.prems by (simp add: clean_token_def)
  show ?case
  proof (cases "ts = []")
    case True
    then show ?thesis
      using split_clean_prefix [OF t, of cur "[]"] by simp
  next
    case False
    have rest: "list_all clean_token ts"
      using Cons.prems by simp
    obtain c cs where j: "join_space ts = c # cs" and c: "\<not> is_space c"
      using join_space_starts_clean [OF False rest] by (cases "join_space ts") auto
    have "re_split_ws_aux cur (join_space (t # ts))
            = re_split_ws_aux (rev t @ cur) (CHR '' '' # join_space ts)"
      using split_clean_prefix [OF t] by (simp add: join_space_Cons [OF False])
    also have "\<dots> = (rev cur @ t) # re_split_ws_aux [] (join_space ts)"
      using c by (simp add: space_is_space j)
    also have "re_split_ws_aux [] (join_space ts) = hd ts # tl ts"
      using Cons.IH [OF False rest, of "[]"] by simp
    finally show ?thesis
      using False by simp
  qed
qed

lemma join_space_clean_ends:
  "ts \<noteq> [] \<Longrightarrow> list_all clean_token ts \<Longrightarrow>
     join_space ts \<noteq> [] \<and> \<not> is_space (hd (join_space ts)) \<and> \<not> is_space (last (join_space ts))"
proof (induction ts rule: join_space.induct)
  case 1
  then show ?case by simp
next
  case (2 t)
  then show ?case by (cases t) (auto simp: clean_token_def)
next
  case (3 t u ts)
  then show ?case by (cases t) (auto simp: clean_token_def)
qed

lemma strip_ends:
  "s \<noteq> [] \<Longrightarrow> \<not> is_space (hd s) \<Longrightarrow> \<not> is_space (last s) \<Longrightarrow> strip s = s"
proof -
  assume s: "s \<noteq> []" and h: "\<not> is_space (hd s)" and l: "\<not> is_space (last s)"
  have "dropWhile is_space s = s"
    using s h by (cases s) auto
  moreover have "dropWhile is_space (rev s) = rev s"
    using s l by (cases "rev s") (auto simp: hd_rev)
  ultimately show ?thesis by (simp add: strip_def)
qed


text \<open>
  Claim C10 (notation round trip): printing a sequence of catalogue moves as
  space-separated tokens and parsing the string gives the sequence back; the empty
  sequence prints as the empty string.
\<close>

theorem parse_seq_str: "parse (seq_str ms) = Inr ms \<and> seq_str [] = []"
proof (cases "ms = []")
  case True
  then show ?thesis
    by (simp add: parse_def seq_str_def strip_def)
next
  case False
  define ts where "ts = map Move_str ms"
  have ne: "ts \<noteq> []" using False by (simp add: ts_def)
  have cl: "list_all clean_token ts"
    by (simp add: ts_def list_all_iff Move_str_clean)
  have st: "strip (join_space ts) = join_space ts"
    using join_space_clean_ends [OF ne cl] by (simp add: strip_ends)
  have sp: "re_split_ws (join_space ts) = ts"
    using split_join_space [OF ne cl, of "[]"] ne by (simp add: re_split_ws_def)
  have f: "filter (\<lambda>token. strip token \<noteq> []) ts = ts"
    using cl by (auto simp: list_all_iff strip_clean clean_token_def intro!: filter_True)
  have m: "map strip ts = ts"
    using cl by (auto simp: list_all_iff strip_clean intro!: map_idI)
  have pt: "parse_tokens ts = Inr ms"
    by (simp add: ts_def parse_tokens_Move_str)
  have "join_space ts \<noteq> []"
    using join_space_clean_ends [OF ne cl] by simp
  then show ?thesis
    by (simp add: parse_def seq_str_def st sp f m pt flip: ts_def)
qed

subsection \<open>Simplification\<close>

lemma look_ahead_eq:
  "look_ahead face count ms =
     (count + sum_list (map get_turn_count (takeWhile (\<lambda>x. get_face x = face) ms)),
      dropWhile (\<lambda>x. get_face x = face) ms)"
  by (induction ms arbitrary: count) simp_all

lemma face_and_count:
  "get_face R = CHR ''R''" "get_face Rp = CHR ''R''" "get_face R2 = CHR ''R''"
  "get_face L = CHR ''L''" "get_face Lp = CHR ''L''" "get_face L2 = CHR ''L''"
  "get_face U = CHR ''U''" "get_face Up = CHR ''U''" "get_face U2 = CHR ''U''"
  "get_face D = CHR ''D''" "get_face Dp = CHR ''D''" "get_face D2 = CHR ''D''"
  "get_face F = CHR ''F''" "get_face Fp = CHR ''F''" "get_face F2 = CHR ''F''"
  "get_face B = CHR ''B''" "get_face Bp = CHR ''B''" "get_face B2 = CHR ''B''"
  "get_face wide_r = CHR ''r''" "get_face wide_rp = CHR ''r''" "get_face wide_r2 = CHR ''r''"
  "get_face wide_l = CHR ''l''" "get_face wide_lp = CHR ''l''" "get_face wide_l2 = CHR ''l''"
  "get_face wide_u = CHR ''u''" "get_face wide_up = CHR ''u''" "get_face wide_u2 = CHR ''u''"
  "get_face wide_d = CHR ''d''" "get_face wide_dp = CHR ''d''" "get_face wide_d2 = CHR ''d''"
  "get_face wide_f = CHR ''f''" "get_face wide_fp = CHR ''f''" "get_face wide_f2 = CHR ''f''"
  "get_face wide_b = CHR ''b''" "get_face wide_bp = CHR ''b''" "get_face wide_b2 = CHR ''b''"
  by (simp_all add: get_face_def)

lemma turn_counts:
  "get_turn_count R = 1" "get_turn_count Rp = - 1" "get_turn_count R2 = 2"
  "get_turn_count L = 1" "get_turn_count Lp = - 1" "get_turn_count L2 = 2"
  "get_turn_count U = 1" "get_turn_count Up = - 1" "get_turn_count U2 = 2"
  "get_turn_count D = 1" "get_turn_count Dp = - 1" "get_turn_count D2 = 2"
  "get_turn_count F = 1" "get_turn_count Fp = - 1" "get_turn_count F2 = 2"
  "get_turn_count B = 1" "get_turn_count Bp = - 1" "get_turn_count B2 = 2"
  "get_turn_count wide_r = 1" "get_turn_count wide_rp = - 1" "get_turn_count wide_r2 = 2"
  "get_turn_count wide_l = 1" "get_turn_count wide_lp = - 1" "get_turn_count wide_l2 = 2"
  "get_turn_count wide_u = 1" "get_turn_count wide_up = - 1" "get_turn_count wide_u2 = 2"
  "get_turn_count wide_d = 1" "get_turn_count wide_dp = - 1" "get_turn_count wide_d2 = 2"
  "get_turn_count wide_f = 1" "get_turn_count wide_fp = - 1" "get_turn_count wide_f2 = 2"
  "get_turn_count wide_b = 1" "get_turn_count wide_bp = - 1" "get_turn_count wide_b2 = 2"
  by (simp_all add: get_turn_count_def)

lemma create_move_turn_of_face:
  "k \<in> {1, 2, - 1} \<Longrightarrow> \<exists>mv. create_move (get_face m) k = Inr mv \<and> turn_of_face (get_face m) k = Some mv"
  by (cases m)
    (auto simp: face_and_count turn_counts create_move_def from_string_def strip_def
      is_space_def string_map_def turn_of_face_def catalogue_def)


lemma simplify_loop_runs:
  "simplify_loop ms acc = Inr (acc @ concat (map coalesce (face_runs ms)))"
proof (induction ms arbitrary: acc rule: face_runs.induct)
  case 1
  then show ?case by simp
next
  case (2 m ms)
  define run where "run = m # takeWhile (\<lambda>x. get_face x = get_face m) ms"
  define rest where "rest = dropWhile (\<lambda>x. get_face x = get_face m) ms"
  define total where "total = sum_list (map get_turn_count run) mod 4"
  have IH: "\<And>acc. simplify_loop rest acc = Inr (acc @ concat (map coalesce (face_runs rest)))"
    using "2.IH" by (simp add: rest_def)
  have runs: "face_runs (m # ms) = run # face_runs rest"
    by (simp add: run_def rest_def)
  have la: "look_ahead (get_face m) (get_turn_count m) ms = (sum_list (map get_turn_count run), rest)"
    by (simp add: look_ahead_eq run_def rest_def)
  have range: "0 \<le> total" "total < 4"
    by (simp_all add: total_def)
  show ?case
  proof (cases "total = 0")
    case True
    have "coalesce run = []"
      unfolding coalesce_def Let_def total_def [symmetric] using True by simp
    moreover have "simplify_loop (m # ms) acc = simplify_loop rest acc"
      unfolding simplify_loop.simps la Let_def prod.case total_def [symmetric]
      using True by simp
    ultimately show ?thesis
      unfolding runs by (simp add: IH del: simplify_loop.simps face_runs.simps)
  next
    case False
    define k where "k = (if total = 3 then - 1 else total)"
    have k: "k \<in> {1, 2, - 1}" "k \<noteq> 0"
      using False range by (auto simp: k_def)
    have k': "(if total = 1 then 1 else if total = 2 then 2 else - 1) = k"
      using False range by (auto simp: k_def)
    obtain mv where mv: "create_move (get_face m) k = Inr mv"
        "turn_of_face (get_face m) k = Some mv"
      using create_move_turn_of_face [OF k(1), of m] by blast
    have "get_face (hd run) = get_face m"
      by (simp add: run_def)
    then have "coalesce run = [mv]"
      unfolding coalesce_def Let_def total_def [symmetric] using False k' mv(2) by simp
    moreover have "simplify_loop (m # ms) acc = simplify_loop rest (acc @ [mv])"
      unfolding simplify_loop.simps la Let_def prod.case total_def [symmetric] k_def [symmetric]
      using k(2) mv(1) by (simp add: and_then_def)
    ultimately show ?thesis
      unfolding runs by (simp add: IH del: simplify_loop.simps face_runs.simps)
  qed
qed

lemma face_runs_concat: "concat (face_runs ms) = ms"
  by (induction ms rule: face_runs.induct) simp_all

lemma face_runs_hd:
  "ms \<noteq> [] \<Longrightarrow> face_runs ms \<noteq> [] \<and> hd (hd (face_runs ms)) = hd ms"
  by (cases ms) simp_all

lemma face_runs_nonempty: "run \<in> set (face_runs ms) \<Longrightarrow> run \<noteq> []"
  by (induction ms rule: face_runs.induct) auto
lemma face_runs_same_face:
  "run \<in> set (face_runs ms) \<Longrightarrow> x \<in> set run \<Longrightarrow> get_face x = get_face (hd run)"
proof (induction ms rule: face_runs.induct)
  case 1
  then show ?case by simp
next
  case (2 m ms)
  show ?case
  proof (cases "run = m # takeWhile (\<lambda>x. get_face x = get_face m) ms")
    case True
    then have "x = m \<or> x \<in> set (takeWhile (\<lambda>x. get_face x = get_face m) ms)"
      using "2.prems"(2) by simp
    then have "get_face x = get_face m"
      using set_takeWhileD by fastforce
    then show ?thesis by (simp add: True)
  next
    case False
    then have "run \<in> set (face_runs (dropWhile (\<lambda>x. get_face x = get_face m) ms))"
      using "2.prems"(1) by simp
    then show ?thesis
      using "2.IH" "2.prems"(2) by blast
  qed
qed

lemma simplify_runs: "simplify ms = Inr (concat (map coalesce (face_runs ms)))"
proof (cases ms)
  case Nil
  then show ?thesis by (simp add: simplify_def)
next
  case (Cons m ms')
  then have "simplify ms = simplify_loop ms []"
    by (simp add: simplify_def)
  then show ?thesis
    by (simp only: simplify_loop_runs append_Nil)
qed

lemma face_runs_maximal:
  "distinct_adj (map (\<lambda>run. get_face (hd run)) (face_runs ms))"
proof (induction ms rule: face_runs.induct)
  case 1
  then show ?case by simp
next
  case (2 m ms)
  define rest where "rest = dropWhile (\<lambda>x. get_face x = get_face m) ms"
  have runs: "face_runs (m # ms) = (m # takeWhile (\<lambda>x. get_face x = get_face m) ms) # face_runs rest"
    by (simp add: rest_def)
  have IH: "distinct_adj (map (\<lambda>run. get_face (hd run)) (face_runs rest))"
    using "2.IH" by (simp add: rest_def)
  show ?case
  proof (cases "rest = []")
    case True
    show ?thesis
      unfolding runs True by simp
  next
    case False
    then have differ: "get_face (hd rest) \<noteq> get_face m"
      unfolding rest_def using hd_dropWhile by blast
    obtain r rs where fr: "face_runs rest = r # rs" and hr: "hd r = hd rest"
      using face_runs_hd [OF False] by (cases "face_runs rest") auto
    show ?thesis
      unfolding runs using IH differ by (simp add: fr hr distinct_adj_Cons_Cons)
  qed
qed


text \<open>
  Claim C5, as the code has it: \<open>simplify\<close> coalesces every maximal run of consecutive
  moves whose tokens start with the same character.  The runs concatenate to the
  sequence, each run is non-empty and of one face character, and neighbouring runs
  differ in it.  A wide move and the face turn of the same face start with different
  characters (\<open>r\<close> and \<open>R\<close>) and are never in one run.
\<close>

theorem simplify_coalesces_runs:
  "simplify ms = Inr (concat (map coalesce (face_runs ms))) \<and>
   concat (face_runs ms) = ms \<and>
   (\<forall>run \<in> set (face_runs ms). run \<noteq> [] \<and> (\<forall>x \<in> set run. get_face x = get_face (hd run))) \<and>
   distinct_adj (map (\<lambda>run. get_face (hd run)) (face_runs ms))"
  using simplify_runs face_runs_concat face_runs_nonempty face_runs_same_face face_runs_maximal
  by blast

text \<open>The theorem at a sequence with four runs, one of them a wide move between face turns.\<close>

theorem simplify_coalesces_runs_witness:
  "simplify [R, R, wide_r, Up, U2, R2, Rp, R] = Inr [R2, wide_r, U, R2] \<and>
   face_runs [R, R, wide_r, Up, U2, R2, Rp, R] = [[R, R], [wide_r], [Up, U2], [R2, Rp, R]]"
proof -
  have runs: "face_runs [R, R, wide_r, Up, U2, R2, Rp, R] = [[R, R], [wide_r], [Up, U2], [R2, Rp, R]]"
    by (simp add: face_and_count)
  have "map coalesce [[R, R], [wide_r], [Up, U2], [R2, Rp, R]] = [[R2], [wide_r], [U], [R2]]"
    by (simp add: coalesce_def turn_of_face_def catalogue_def face_and_count turn_counts)
  then show ?thesis
    using simplify_coalesces_runs [of "[R, R, wide_r, Up, U2, R2, Rp, R]"]
    unfolding runs by simp
qed

text \<open>
  Claim C5 as stated fails: \<open>simplify(parse("R r"))\<close> is the two-move sequence \<open>R r\<close>,
  not a single half turn, since \<open>_get_face\<close> gives \<open>R\<close> and \<open>r\<close>.
\<close>

theorem simplify_R_r_not_coalesced:
  "and_then (parse ''R r'') simplify = Inr [R, wide_r] \<and> get_face R \<noteq> get_face wide_r"
proof -
  have "and_then (parse ''R r'') simplify = Inr [R, wide_r]"
    by code_simp
  then show ?thesis
    by (simp add: face_and_count)
qed

section \<open>Properties of the scramble generator\<close>

lemma choice_in: "seq \<noteq> [] \<Longrightarrow> \<exists>x. choice seq draw = Inr x \<and> x \<in> set seq"
  by (simp add: choice_def)

lemma valid_faces_nonempty: "valid_faces l s \<noteq> []"
proof -
  have "\<exists>f \<in> {CHR ''R'', CHR ''U'', CHR ''F''}. Some f \<noteq> l \<and> Some f \<noteq> s"
    by (cases "l = Some CHR ''R'' \<or> s = Some CHR ''R''";
        cases "l = Some CHR ''U'' \<or> s = Some CHR ''U''") auto
  then obtain f where f: "f \<in> set faces" "Some f \<noteq> l" "Some f \<noteq> s"
    by (auto simp: faces_def move_groups_def)
  then have "f \<in> set (valid_faces l s)"
    by (simp add: valid_faces_def)
  then show ?thesis by auto
qed

lemma valid_faces_member:
  assumes "f \<in> set (valid_faces l s)"
  shows "f \<in> set faces" and "Some f \<noteq> l"
    and "\<not> (s \<noteq> None \<and> l \<noteq> None \<and> Some f = s \<and> map_of opposite_faces f = l)"
  using assms by (auto simp: valid_faces_def)

lemma group_of_face:
  assumes "f \<in> set faces"
  shows "\<exists>g. group_of f = Inr g \<and> g \<noteq> [] \<and>
           (\<forall>m \<in> set g. get_face m = f \<and> m \<in> set base_moves)"
  using assms
  by (auto simp: faces_def move_groups_def group_of_def base_moves_def get_face_def)

lemma scramble_inv_step:
  assumes inv: "scramble_inv acc l s"
    and face: "get_face m = f" and base: "m \<in> set base_moves"
    and not_last: "Some f \<noteq> l"
    and not_sandwich: "\<not> (s \<noteq> None \<and> l \<noteq> None \<and> Some f = s \<and> map_of opposite_faces f = l)"
  shows "scramble_inv (acc @ [m]) (Some f) l"
proof -
  have l: "l = (if acc = [] then None else Some (get_face (last acc)))"
    and s: "s = (if length acc < 2 then None else Some (get_face (acc ! (length acc - 2))))"
    and sub: "set acc \<subseteq> set base_moves"
    and adj: "no_adjacent_same_face acc" and sw: "no_sandwich acc"
    using inv by (simp_all add: scramble_inv_def)
  have second: "l = (if length (acc @ [m]) < 2 then None
                     else Some (get_face ((acc @ [m]) ! (length (acc @ [m]) - 2))))"
  proof (cases "acc = []")
    case True
    then show ?thesis using l by simp
  next
    case False
    then have "(acc @ [m]) ! (length (acc @ [m]) - 2) = last acc"
      by (simp add: nth_append last_conv_nth)
    moreover have "\<not> length (acc @ [m]) < 2"
      using False by (cases acc) simp_all
    ultimately show ?thesis using l False by simp
  qed
  have adj': "no_adjacent_same_face (acc @ [m])"
    unfolding no_adjacent_same_face_def
  proof (intro allI impI)
    fix i assume i: "i + 1 < length (acc @ [m])"
    show "get_face ((acc @ [m]) ! i) \<noteq> get_face ((acc @ [m]) ! (i + 1))"
    proof (cases "i + 1 < length acc")
      case True
      then show ?thesis
        using adj by (simp add: no_adjacent_same_face_def nth_append)
    next
      case False
      then have eq: "i + 1 = length acc" using i by simp
      then have ne: "acc \<noteq> []" by auto
      have "i = length acc - 1" using eq by simp
      then have "(acc @ [m]) ! i = last acc"
        using ne by (simp add: nth_append last_conv_nth)
      moreover have "(acc @ [m]) ! (i + 1) = m"
        using eq by (simp add: nth_append)
      ultimately show ?thesis
        using l ne not_last face by auto
    qed
  qed
  have sw': "no_sandwich (acc @ [m])"
    unfolding no_sandwich_def
  proof (intro allI impI)
    fix i assume i: "i + 2 < length (acc @ [m])"
    show "\<not> (get_face ((acc @ [m]) ! i) = get_face ((acc @ [m]) ! (i + 2)) \<and>
            map_of opposite_faces (get_face ((acc @ [m]) ! i))
              = Some (get_face ((acc @ [m]) ! (i + 1))))"
    proof (cases "i + 2 < length acc")
      case True
      then show ?thesis
        using sw by (simp add: no_sandwich_def nth_append)
    next
      case False
      then have eq: "i + 2 = length acc" using i by simp
      then have ne: "acc \<noteq> []" and len: "\<not> length acc < 2" by auto
      have i2: "i = length acc - 2" and i1: "i + 1 = length acc - 1"
        using eq by simp_all
      have a: "(acc @ [m]) ! i = acc ! (length acc - 2)"
        using eq by (simp add: nth_append i2)
      have b: "(acc @ [m]) ! (i + 1) = last acc"
        unfolding i1 using ne by (simp add: nth_append last_conv_nth)
      have c: "(acc @ [m]) ! (i + 2) = m"
        using eq by (simp add: nth_append)
      have s': "s = Some (get_face (acc ! (length acc - 2)))"
        using s len by simp
      have l': "l = Some (get_face (last acc))"
        using l ne by simp
      show ?thesis
        unfolding a b c using not_sandwich s' l' face by auto
    qed
  qed
  show ?thesis
    unfolding scramble_inv_def using second sub base adj' sw' face by simp
qed

lemma scramble_loop_inv:
  "scramble_inv acc l s \<Longrightarrow>
     \<exists>ms. scramble_loop n i rnd l s acc = Inr ms \<and> length ms = length acc + n \<and>
          set ms \<subseteq> set base_moves \<and> no_adjacent_same_face ms \<and> no_sandwich ms"
proof (induction n arbitrary: i l s acc)
  case 0
  then show ?case by (simp add: scramble_inv_def)
next
  case (Suc n)
  obtain f where f: "choice (valid_faces l s) (rnd (2 * i)) = Inr f" "f \<in> set (valid_faces l s)"
    using choice_in [OF valid_faces_nonempty] by blast
  obtain g where g: "group_of f = Inr g" "g \<noteq> []"
      "\<forall>m \<in> set g. get_face m = f \<and> m \<in> set base_moves"
    using group_of_face [OF valid_faces_member(1) [OF f(2)]] by blast
  obtain m where m: "choice g (rnd (2 * i + 1)) = Inr m" "m \<in> set g"
    using choice_in [OF g(2)] by blast
  have "scramble_inv (acc @ [m]) (Some f) l"
    using scramble_inv_step [OF Suc.prems _ _ valid_faces_member(2,3) [OF f(2)]] g(3) m(2)
    by blast
  from Suc.IH [OF this, of "i + 1"]
  obtain ms where "scramble_loop n (i + 1) rnd (Some f) l (acc @ [m]) = Inr ms"
      "length ms = length (acc @ [m]) + n" "set ms \<subseteq> set base_moves"
      "no_adjacent_same_face ms" "no_sandwich ms"
    by blast
  then show ?case
    unfolding scramble_loop.simps and_then_def f(1) g(1) m(1) sum.case by simp
qed

lemma scramble_inv_empty: "scramble_inv [] None None"
  by (simp add: scramble_inv_def no_adjacent_same_face_def no_sandwich_def)


text \<open>
  Claim C6 (scramble legality): for every length of at least 1 and every outcome of the
  random choices, \<open>generate_scramble\<close> returns exactly that many moves, all of them among
  the 18 face turns, no two neighbours on the same face, and no three consecutive
  moves with the first and third on one face and the second on the opposite face; for
  a length of 0 or less it returns the empty sequence and raises nothing.
\<close>

theorem generate_scramble_legal:
  "(1 \<le> len \<longrightarrow>
      (\<exists>ms. generate_scramble len rnd = Inr ms \<and> int (length ms) = len \<and>
            set ms \<subseteq> set base_moves \<and> no_adjacent_same_face ms \<and> no_sandwich ms)) \<and>
   (len \<le> 0 \<longrightarrow> generate_scramble len rnd = Inr [])"
proof (intro conjI impI)
  assume "1 \<le> len"
  then show "\<exists>ms. generate_scramble len rnd = Inr ms \<and> int (length ms) = len \<and>
            set ms \<subseteq> set base_moves \<and> no_adjacent_same_face ms \<and> no_sandwich ms"
    using scramble_loop_inv [OF scramble_inv_empty, of "nat len" 0 rnd]
    by (auto simp: generate_scramble_def)
next
  assume "len \<le> 0"
  then show "generate_scramble len rnd = Inr []"
    by (simp add: generate_scramble_def)
qed


text \<open>The theorem at the length 6 and at the length -2, for one random source.\<close>

theorem generate_scramble_legal_witness:
  "generate_scramble 6 (\<lambda>k. 5 * k + 3) = Inr [D2, F, Dp, F2, D, Fp] \<and>
   no_adjacent_same_face [D2, F, Dp, F2, D, Fp] \<and> no_sandwich [D2, F, Dp, F2, D, Fp] \<and>
   generate_scramble (- 2) (\<lambda>k. 5 * k + 3) = Inr []"
proof -
  have v: "generate_scramble 6 (\<lambda>k. 5 * k + 3) = Inr [D2, F, Dp, F2, D, Fp]"
    by code_simp
  show ?thesis
    using generate_scramble_legal [of 6 "\<lambda>k. 5 * k + 3"]
      generate_scramble_legal [of "- 2" "\<lambda>k. 5 * k + 3"]
    unfolding v by simp
qed


section \<open>Properties of the search solver\<close>

subsection \<open>The heuristic\<close>

lemma out_of_place_misplaced: "out_of_place perm = int (misplaced perm)"
proof -
  have "length (filter (\<lambda>(i, pos). pos \<noteq> int i) (List.enumerate 0 perm))
          = card {i. i < length (List.enumerate 0 perm) \<and> (\<lambda>(i, pos). pos \<noteq> int i) (List.enumerate 0 perm ! i)}"
    by (rule length_filter_conv_card)
  also have "{i. i < length (List.enumerate 0 perm) \<and> (\<lambda>(i, pos). pos \<noteq> int i) (List.enumerate 0 perm ! i)}
          = {i. i < length perm \<and> perm ! i \<noteq> int i}"
    by (auto simp: nth_enumerate_eq)
  finally show ?thesis
    by (simp add: out_of_place_def misplaced_def)
qed

lemma ceiling_third: "(x + 2) div 3 = \<lceil>real_of_int x / 3\<rceil>" for x :: int
proof -
  have "\<lceil>real_of_int x / real_of_int 3\<rceil> = - (- x div 3)"
    by (rule ceiling_divide_eq_div)
  moreover have "(x + 2) div 3 = - (- x div 3)"
    by presburger
  ultimately show ?thesis by simp
qed

lemma ceiling_half: "(x + 1) div 2 = \<lceil>real_of_int x / 2\<rceil>" for x :: int
proof -
  have "\<lceil>real_of_int x / real_of_int 2\<rceil> = - (- x div 2)"
    by (rule ceiling_divide_eq_div)
  moreover have "(x + 1) div 2 = - (- x div 2)"
    by presburger
  ultimately show ?thesis by simp
qed

lemma ceiling_quarter: "(x + 3) div 4 = \<lceil>real_of_int x / 4\<rceil>" for x :: int
proof -
  have "\<lceil>real_of_int x / real_of_int 4\<rceil> = - (- x div 4)"
    by (rule ceiling_divide_eq_div)
  moreover have "(x + 3) div 4 = - (- x div 4)"
    by presburger
  ultimately show ?thesis by simp
qed

lemma guarded_max:
  fixes x h c :: int
  assumes "0 \<le> h" and "x \<le> 0 \<longrightarrow> c \<le> 0"
  shows "(if x > 0 then max h c else h) = max h c"
  using assms by auto

lemma nested_max:
  "max (max (max (max (max 0 a) b) c) d) 1 = max 1 (max a (max b (max c d)))" for a :: int
  by linarith

lemma heuristic_unsolved:
  assumes "\<not> is_solved s"
  shows "heuristic s =
           max 1 (max ((sum_list (corner_orient s) + 2) div 3)
                 (max ((sum_list (edge_orient s) + 1) div 2)
                 (max ((out_of_place (corner_perm s) + 2) div 3)
                      ((out_of_place (edge_perm s) + 3) div 4))))"
proof -
  define a where "a = sum_list (corner_orient s)"
  define b where "b = sum_list (edge_orient s)"
  define c where "c = out_of_place (corner_perm s)"
  define d where "d = out_of_place (edge_perm s)"
  define h1 where "h1 = (if a > 0 then max 0 ((a + 2) div 3) else 0)"
  define h2 where "h2 = (if b > 0 then max h1 ((b + 1) div 2) else h1)"
  define h3 where "h3 = (if c > 0 then max h2 ((c + 2) div 3) else h2)"
  define h4 where "h4 = (if d > 0 then max h3 ((d + 3) div 4) else h3)"
  have a: "a \<le> 0 \<longrightarrow> (a + 2) div 3 \<le> 0" by presburger
  have b: "b \<le> 0 \<longrightarrow> (b + 1) div 2 \<le> 0" by presburger
  have c: "c \<le> 0 \<longrightarrow> (c + 2) div 3 \<le> 0" by presburger
  have d: "d \<le> 0 \<longrightarrow> (d + 3) div 4 \<le> 0" by presburger
  have e1: "h1 = max 0 ((a + 2) div 3)"
    unfolding h1_def by (rule guarded_max [OF _ a]) simp
  have e2: "h2 = max h1 ((b + 1) div 2)"
    unfolding h2_def by (rule guarded_max [OF _ b]) (simp add: e1)
  have e3: "h3 = max h2 ((c + 2) div 3)"
    unfolding h3_def by (rule guarded_max [OF _ c]) (simp add: e2 e1)
  have e4: "h4 = max h3 ((d + 3) div 4)"
    unfolding h4_def by (rule guarded_max [OF _ d]) (simp add: e3 e2 e1)
  have "heuristic s = max h4 1"
    unfolding heuristic_def Let_def h4_def h3_def h2_def h1_def a_def b_def c_def d_def
    using assms by (simp only: if_False)
  also have "\<dots> = max 1 (max ((a + 2) div 3) (max ((b + 1) div 2)
                     (max ((c + 2) div 3) ((d + 3) div 4))))"
    unfolding e4 e3 e2 e1 by (rule nested_max)
  finally show ?thesis
    unfolding a_def b_def c_def d_def .
qed


text \<open>
  Claim C8 (heuristic): \<open>_heuristic\<close> returns 0 exactly on the solved state, and on every
  unsolved state the maximum of 1 and the four rounded-up quotients: the corner
  orientation sum by 3, the edge orientation sum by 2, the number of corners out of
  place by 3 and the number of edges out of place by 4; so at least 1.  The states are
  those of the documented shape, on which the int8 sums cannot overflow.
\<close>

theorem heuristic_spec:
  assumes "cube_shape s"
  shows "(heuristic s = 0 \<longleftrightarrow> is_solved s) \<and>
         (\<not> is_solved s \<longrightarrow>
            heuristic s =
              max 1 (max \<lceil>real_of_int (sum_list (corner_orient s)) / 3\<rceil>
                    (max \<lceil>real_of_int (sum_list (edge_orient s)) / 2\<rceil>
                    (max \<lceil>real (misplaced (corner_perm s)) / 3\<rceil>
                         \<lceil>real (misplaced (edge_perm s)) / 4\<rceil>))) \<and>
            1 \<le> heuristic s)"
proof (cases "is_solved s")
  case True
  then show ?thesis by (simp add: heuristic_def)
next
  case False
  have eq: "heuristic s =
              max 1 (max \<lceil>real_of_int (sum_list (corner_orient s)) / 3\<rceil>
                    (max \<lceil>real_of_int (sum_list (edge_orient s)) / 2\<rceil>
                    (max \<lceil>real (misplaced (corner_perm s)) / 3\<rceil>
                         \<lceil>real (misplaced (edge_perm s)) / 4\<rceil>)))"
    using heuristic_unsolved [OF False]
    unfolding ceiling_third ceiling_half ceiling_quarter out_of_place_misplaced of_int_of_nat_eq .
  have ge: "1 \<le> heuristic s"
    unfolding eq by (rule max.cobounded1)
  then have "heuristic s \<noteq> 0"
    by linarith
  then show ?thesis
    using False eq ge by blast
qed


text \<open>The theorem at a state with seven corners twisted by 2 and one by 1, and at the solved state.\<close>

theorem heuristic_spec_witness:
  "cube_shape (solved_state\<lparr>corner_orient := [2, 2, 2, 2, 2, 2, 2, 1]\<rparr>) \<and>
   \<not> is_solved (solved_state\<lparr>corner_orient := [2, 2, 2, 2, 2, 2, 2, 1]\<rparr>) \<and>
   heuristic (solved_state\<lparr>corner_orient := [2, 2, 2, 2, 2, 2, 2, 1]\<rparr>) = 5 \<and>
   heuristic solved_state = 0"
proof -
  have shape: "cube_shape (solved_state\<lparr>corner_orient := [2, 2, 2, 2, 2, 2, 2, 1]\<rparr>)"
    by (simp add: cube_shape_def solved_state_def)
  have unsolved: "\<not> is_solved (solved_state\<lparr>corner_orient := [2, 2, 2, 2, 2, 2, 2, 1]\<rparr>)"
    by code_simp
  have five: "heuristic (solved_state\<lparr>corner_orient := [2, 2, 2, 2, 2, 2, 2, 1]\<rparr>) = 5"
    by code_simp
  show ?thesis
    using heuristic_spec [OF shape] heuristic_spec [OF cube_shape_solved]
      shape unsolved five is_solved_solved_state by simp
qed


subsection \<open>The outcomes of \<open>solve\<close>\<close>
















section \<open>Properties of the validators\<close>

lemma map_of_counter_add:
  "map_of (counter_add x acc) =
     (map_of acc)(x \<mapsto> (case map_of acc x of None \<Rightarrow> 1 | Some n \<Rightarrow> Suc n))"
  by (induction acc) (auto simp: fun_eq_iff)

lemma map_of_fold_counter_add:
  "map_of (fold counter_add xs acc) y =
     (case map_of acc y of
        None \<Rightarrow> if y \<in> set xs then Some (count_list xs y) else None
      | Some n \<Rightarrow> Some (n + count_list xs y))"
proof (induction xs arbitrary: acc)
  case Nil
  then show ?case by (simp split: option.splits)
next
  case (Cons x xs)
  show ?case
    by (simp add: Cons.IH map_of_counter_add split: option.splits)
qed

lemma Counter_member:
  assumes "x \<in> set xs"
  shows "(x, count_list xs x) \<in> set (Counter xs)"
proof -
  have "map_of (Counter xs) x = Some (count_list xs x)"
    using assms by (simp add: Counter_def map_of_fold_counter_add)
  then show ?thesis by (rule map_of_SomeD)
qed

lemma wrong_count_reported:
  assumes "(color, count) \<in> set color_counts" and "count \<noteq> 9"
  shows "wrong_count_message color count
           \<in> set (concat (map (\<lambda>(color, count).
                 if count \<noteq> 9 then [wrong_count_message color count] else []) color_counts))"
  using assms by (induction color_counts) auto


text \<open>
  Claim C9 (the validator accumulates): for a facelet array of 54 entries in which one
  colour appears 8 times and another 10 times, \<open>validate_facelets\<close> returns invalid, and
  its error list holds the wrong-count message of both colours.  The number of
  distinct colours plays no part.
\<close>

theorem validate_facelets_miscount:
  assumes "length facelets = 54"
    and "count_list facelets a = 8" and "count_list facelets b = 10"
  shows "\<exists>errors. validate_facelets facelets = Inr (False, errors) \<and>
           wrong_count_message a 8 \<in> set errors \<and> wrong_count_message b 10 \<in> set errors"
proof -
  define reported where "reported = concat (map (\<lambda>(color, count).
      if count \<noteq> 9 then [wrong_count_message color count] else []) (Counter facelets))"
  define errors where "errors =
      (if length (Counter facelets) \<noteq> 6
       then [''Expected exactly 6 different colors, got '' @ str_nat (length (Counter facelets))]
       else []) @ reported"
  have "a \<in> set facelets" "b \<in> set facelets"
    using assms(2,3) count_list_0_iff [of facelets a] count_list_0_iff [of facelets b] by auto
  then have "(a, 8) \<in> set (Counter facelets)" "(b, 10) \<in> set (Counter facelets)"
    using Counter_member [of a facelets] Counter_member [of b facelets] assms(2,3) by auto
  then have rep: "wrong_count_message a 8 \<in> set reported" "wrong_count_message b 10 \<in> set reported"
    unfolding reported_def using wrong_count_reported by fastforce+
  then have mem: "wrong_count_message a 8 \<in> set errors" "wrong_count_message b 10 \<in> set errors"
    by (simp_all add: errors_def)
  then have "errors \<noteq> []" by auto
  then have "validate_facelets facelets = Inr (False, errors)"
    unfolding validate_facelets_def Let_def errors_def reported_def
    using assms(1) by simp
  then show ?thesis using mem by blast
qed


text \<open>The theorem at an array of six colours with 8 \<open>W\<close> and 10 \<open>Y\<close>, and the value there.\<close>

theorem validate_facelets_miscount_witness:
  "length miscounted_facelets = 54 \<and> card (set miscounted_facelets) = 6 \<and>
   count_list miscounted_facelets ''W'' = 8 \<and> count_list miscounted_facelets ''Y'' = 10 \<and>
   (\<exists>errors. validate_facelets miscounted_facelets = Inr (False, errors) \<and>
      wrong_count_message ''W'' 8 \<in> set errors \<and> wrong_count_message ''Y'' 10 \<in> set errors) \<and>
   validate_facelets miscounted_facelets =
     Inr (False, [''Color Y appears 10 times, expected 9'', ''Color W appears 8 times, expected 9''])"
proof -
  have len: "length miscounted_facelets = 54"
    by (simp add: miscounted_facelets_def)
  have w: "count_list miscounted_facelets ''W'' = 8"
    by code_simp
  have y: "count_list miscounted_facelets ''Y'' = 10"
    by code_simp
  have "length (remdups miscounted_facelets) = 6"
    by code_simp
  then have six: "card (set miscounted_facelets) = 6"
    by (simp add: card_set)
  have v: "validate_facelets miscounted_facelets =
     Inr (False, [''Color Y appears 10 times, expected 9'', ''Color W appears 8 times, expected 9''])"
    by code_simp
  show ?thesis
    using validate_facelets_miscount [OF len w y] len w y six v by blast
qed

section \<open>Properties of the facelet conversion\<close>

subsection \<open>The tables, checked by evaluation\<close>

lemma corner_table_checked:
  "list_all (\<lambda>(j, orient).
      match_corner_faces (rotated_faces (corner_faces j) (int orient)) = Some (j, orient))
     corner_candidates"
  by code_simp

lemma edge_table_checked:
  "list_all (\<lambda>(j, orient).
      match_edge_faces (swapped_faces (edge_faces j) (int orient)) = Some (j, orient))
     edge_candidates"
  by code_simp

lemma faces_in_range:
  "list_all (\<lambda>j. length (corner_faces j) = 3 \<and> list_all (\<lambda>f. f < 6) (corner_faces j)) [0..<8]"
  "list_all (\<lambda>j. length (edge_faces j) = 2 \<and> list_all (\<lambda>f. f < 6) (edge_faces j)) [0..<12]"
  by code_simp+

subsection \<open>\<open>to_facelets\<close> as a list of writes\<close>

lemma shape_corner:
  assumes "cube_shape st" and "i < 8"
  shows "0 \<le> corner_perm st ! i" "corner_perm st ! i < 8"
    "0 \<le> corner_orient st ! i" "corner_orient st ! i < 3"
  using assms by (simp_all add: cube_shape_def list_all_length)

lemma shape_edge:
  assumes "cube_shape st" and "i < 12"
  shows "0 \<le> edge_perm st ! i" "edge_perm st ! i < 12"
    "0 \<le> edge_orient st ! i" "edge_orient st ! i < 2"
  using assms by (simp_all add: cube_shape_def list_all_length)

lemma nth_triple_map:
  "n < 3 \<Longrightarrow> [g a, g b, g c] ! n = g ([a, b, c] ! n)"
  by (cases n rule: less_Suc_eq_0_disj [THEN iffD1, elim_format]) (auto simp: less_Suc_eq numeral_3_eq_3 nth_Cons')

lemma fill_corner_writes:
  assumes shape: "cube_shape st" and i: "i < 8"
  shows "fill_corner scheme st i fs
           = Inr (fold write_slot (zip (corner_slots i) (corner_colors scheme st i)) fs)"
proof -
  define j where "j = corner_perm st ! i"
  define orientation where "orientation = corner_orient st ! i"
  have j: "0 \<le> j" "j < 8" and o: "0 \<le> orientation" "orientation < 3"
    using shape_corner [OF shape i] by (simp_all add: j_def orientation_def)
  have len: "\<not> length (corner_perm st) \<le> i" "\<not> length (corner_orient st) \<le> i"
    using shape i by (simp_all add: cube_shape_def)
  have idx: "py_index (length corner_facelets) j = Some (nat j)"
    using j by (simp add: py_index_def corner_facelets_def)
  obtain sf1 sp1 sf2 sp2 sf3 sp3 where solved: "corner_facelets ! nat j = (sf1, sp1, sf2, sp2, sf3, sp3)"
    by (cases "corner_facelets ! nat j") auto
  obtain f1 p1 f2 p2 f3 p3 where here: "corner_facelets ! i = (f1, p1, f2, p2, f3, p3)"
    by (cases "corner_facelets ! i") auto
  have rot: "\<And>k. nat ((k - orientation) mod 3) < 3"
    by (simp add: nat_less_iff)
  have colors: "corner_colors scheme st i =
      map (\<lambda>k. [scheme_color scheme sf1, scheme_color scheme sf2, scheme_color scheme sf3]
                 ! nat ((k - orientation) mod 3)) [0, 1, 2]"
    unfolding corner_colors_def rotated_faces_def corner_faces_def
    by (simp add: solved nth_triple_map [OF rot] flip: j_def orientation_def)
  show ?thesis
    unfolding fill_corner_def colors
    using len by (simp add: idx solved here corner_slots_def write_slot_def Let_def flip: j_def orientation_def)
qed


lemma fill_edge_writes:
  assumes shape: "cube_shape st" and i: "i < 12"
  shows "fill_edge scheme st i fs
           = Inr (fold write_slot (zip (edge_slots i) (edge_colors scheme st i)) fs)"
proof -
  define j where "j = edge_perm st ! i"
  define orientation where "orientation = edge_orient st ! i"
  have j: "0 \<le> j" "j < 12" and o: "0 \<le> orientation" "orientation < 2"
    using shape_edge [OF shape i] by (simp_all add: j_def orientation_def)
  have len: "\<not> length (edge_perm st) \<le> i" "\<not> length (edge_orient st) \<le> i"
    using shape i by (simp_all add: cube_shape_def)
  have idx: "py_index (length edge_facelets) j = Some (nat j)"
    using j by (simp add: py_index_def edge_facelets_def)
  obtain sf1 sp1 sf2 sp2 where solved: "edge_facelets ! nat j = (sf1, sp1, sf2, sp2)"
    by (cases "edge_facelets ! nat j") auto
  obtain f1 p1 f2 p2 where here: "edge_facelets ! i = (f1, p1, f2, p2)"
    by (cases "edge_facelets ! i") auto
  have colors: "edge_colors scheme st i =
      (if orientation = 1 then [scheme_color scheme sf2, scheme_color scheme sf1]
       else [scheme_color scheme sf1, scheme_color scheme sf2])"
    unfolding edge_colors_def swapped_faces_def edge_faces_def
    by (simp add: solved flip: j_def orientation_def)
  show ?thesis
    unfolding fill_edge_def colors
    using len by (simp add: idx solved here edge_slots_def write_slot_def Let_def flip: j_def orientation_def)
qed

lemma fill_all_writes:
  assumes "\<And>i fs. i \<in> set is \<Longrightarrow> step i fs = Inr (fold write_slot (ws i) fs)"
  shows "fill_all step is fs = Inr (fold write_slot (concat (map ws is)) fs)"
  using assms by (induction "is" arbitrary: fs) (simp_all add: and_then_def)

lemma to_facelets_writes:
  assumes "cube_shape st"
  shows "to_facelets st scheme = Inr (fold write_slot (all_writes scheme st) (replicate 54 []))"
proof -
  have centers: "fold (\<lambda>i fs. fs[center_positions ! i := scheme_color scheme i]) [0..<6] fs
        = fold write_slot (map (\<lambda>i. (center_positions ! i, scheme_color scheme i)) [0..<6]) fs" for fs
    by (simp add: fold_map comp_def write_slot_def [abs_def])
  have corners: "fill_all (fill_corner scheme st) [0..<8] fs
        = Inr (fold write_slot (concat (map (\<lambda>i. zip (corner_slots i) (corner_colors scheme st i)) [0..<8])) fs)" for fs
    by (rule fill_all_writes) (simp add: fill_corner_writes [OF assms])
  have edges: "fill_all (fill_edge scheme st) [0..<12] fs
        = Inr (fold write_slot (concat (map (\<lambda>i. zip (edge_slots i) (edge_colors scheme st i)) [0..<12])) fs)" for fs
    by (rule fill_all_writes) (simp add: fill_edge_writes [OF assms])
  show ?thesis
    unfolding to_facelets_def Let_def centers corners and_then_def sum.case edges all_writes_def
    by (simp only: fold_append comp_def)
qed

lemma fold_write_slot_length: "length (fold write_slot ws fs) = length fs"
  by (induction ws arbitrary: fs) (simp_all add: write_slot_def)

lemma fold_write_slot_other:
  "p \<notin> fst ` set ws \<Longrightarrow> fold write_slot ws fs ! p = fs ! p"
  by (induction ws arbitrary: fs) (auto simp: write_slot_def)

lemma fold_write_slot_nth:
  "distinct (map fst ws) \<Longrightarrow> (p, v) \<in> set ws \<Longrightarrow> p < length fs
     \<Longrightarrow> fold write_slot ws fs ! p = v"
proof (induction ws arbitrary: fs)
  case Nil
  then show ?case by simp
next
  case (Cons w ws)
  show ?case
  proof (cases "(p, v) = w")
    case True
    then have "fst w = p" by auto
    then have "p \<notin> fst ` set ws"
      using Cons.prems(1) by simp
    then have "fold write_slot (w # ws) fs ! p = write_slot w fs ! p"
      by (simp add: fold_write_slot_other)
    also have "\<dots> = v"
      using True Cons.prems(3) by (auto simp: write_slot_def)
    finally show ?thesis .
  next
    case False
    then have "(p, v) \<in> set ws" using Cons.prems(2) by simp
    then show ?thesis
      using Cons.IH [of "write_slot w fs"] Cons.prems(1,3) by (simp add: write_slot_def)
  qed
qed

subsection \<open>Reading the written array back\<close>

lemma slots_checked: "distinct all_slots \<and> list_all (\<lambda>p. p < 54) all_slots"
  by code_simp

lemma corner_faces_shape:
  assumes "j < 8"
  shows "length (corner_faces j) = 3" and "\<forall>f \<in> set (corner_faces j). f < 6"
  using faces_in_range(1) assms by (auto simp: list_all_iff)

lemma edge_faces_shape:
  assumes "j < 12"
  shows "length (edge_faces j) = 2" and "\<forall>f \<in> set (edge_faces j). f < 6"
  using faces_in_range(2) assms by (auto simp: list_all_iff)

lemma rotated_faces_shape:
  assumes "length fs = 3" and "\<forall>f \<in> set fs. f < 6"
  shows "length (rotated_faces fs orientation) = 3"
    and "\<forall>f \<in> set (rotated_faces fs orientation). f < 6"
proof -
  have "\<And>k. nat ((k - orientation) mod 3) < length fs"
    using assms(1) by (simp add: nat_less_iff)
  then have "\<And>k. fs ! nat ((k - orientation) mod 3) \<in> set fs"
    by (rule nth_mem)
  then have k: "\<And>k. fs ! nat ((k - orientation) mod 3) < 6"
    using assms(2) by blast
  show "\<forall>f \<in> set (rotated_faces fs orientation). f < 6"
    unfolding rotated_faces_def using k [of 0] k [of 1] k [of 2] by simp
  show "length (rotated_faces fs orientation) = 3"
    by (simp add: rotated_faces_def)
qed

lemma swapped_faces_shape:
  assumes "length fs = 2" and "\<forall>f \<in> set fs. f < 6"
  shows "length (swapped_faces fs orientation) = 2"
    and "\<forall>f \<in> set (swapped_faces fs orientation). f < 6"
  using assms by (auto simp: swapped_faces_def)

lemma corner_slots_length: "length (corner_slots i) = 3"
  by (cases "corner_facelets ! i") (simp add: corner_slots_def)

lemma edge_slots_length: "length (edge_slots i) = 2"
  by (cases "edge_facelets ! i") (simp add: edge_slots_def)

lemma corner_colors_length: "length (corner_colors scheme st i) = 3"
  by (simp add: corner_colors_def rotated_faces_def)

lemma edge_colors_length:
  assumes "cube_shape st" and "i < 12"
  shows "length (edge_colors scheme st i) = 2"
proof -
  have "nat (edge_perm st ! i) < 12"
    using shape_edge [OF assms] by simp
  then show ?thesis
    using swapped_faces_shape(1) [OF edge_faces_shape] by (simp add: edge_colors_def)
qed

lemma map_fst_all_writes:
  assumes "cube_shape st"
  shows "map fst (all_writes scheme st) = all_slots"
proof -
  have c: "map fst (map (\<lambda>i. (center_positions ! i, scheme_color scheme i)) [0..<6]) = center_positions"
    by (simp add: comp_def center_positions_def upt_conv_Cons)
  have k: "map fst (zip (corner_slots i) (corner_colors scheme st i)) = corner_slots i" for i
    by (simp add: corner_slots_length corner_colors_length)
  have e: "map fst (zip (edge_slots i) (edge_colors scheme st i)) = edge_slots i" if "i < 12" for i
    by (simp add: edge_slots_length edge_colors_length [OF assms that])
  have e': "map (\<lambda>i. map fst (zip (edge_slots i) (edge_colors scheme st i))) [0..<12]
              = map edge_slots [0..<12]"
    by (rule map_cong) (simp_all add: e)
  have ks: "map fst (concat (map (\<lambda>i. zip (corner_slots i) (corner_colors scheme st i)) [0..<8]))
              = concat (map corner_slots [0..<8])"
    by (simp add: map_concat comp_def k)
  have es: "map fst (concat (map (\<lambda>i. zip (edge_slots i) (edge_colors scheme st i)) [0..<12]))
              = concat (map edge_slots [0..<12])"
    unfolding map_concat map_map comp_def e' ..
  show ?thesis
    unfolding all_writes_def all_slots_def map_append c ks es ..
qed

lemma read_block:
  assumes shape: "cube_shape st"
    and block: "set (zip slots vals) \<subseteq> set (all_writes scheme st)"
    and len: "length slots = length vals"
  shows "map (\<lambda>p. fold write_slot (all_writes scheme st) (replicate 54 []) ! p) slots = vals"
proof (rule nth_equalityI)
  show "length (map (\<lambda>p. fold write_slot (all_writes scheme st) (replicate 54 []) ! p) slots)
          = length vals"
    using len by simp
next
  fix k assume "k < length (map (\<lambda>p. fold write_slot (all_writes scheme st) (replicate 54 []) ! p) slots)"
  then have k: "k < length slots" by simp
  then have mem: "(slots ! k, vals ! k) \<in> set (all_writes scheme st)"
    using block len by (metis in_set_zip fst_conv snd_conv subsetD)
  then have "slots ! k \<in> set (map fst (all_writes scheme st))"
    by (metis fst_conv image_eqI set_map)
  then have "slots ! k < 54"
    using slots_checked by (simp add: map_fst_all_writes [OF shape] list_all_iff)
  then have "fold write_slot (all_writes scheme st) (replicate 54 []) ! (slots ! k) = vals ! k"
    using slots_checked by (intro fold_write_slot_nth mem) (simp_all add: map_fst_all_writes [OF shape])
  then show "map (\<lambda>p. fold write_slot (all_writes scheme st) (replicate 54 []) ! p) slots ! k = vals ! k"
    using k by simp
qed

lemma read_corner:
  assumes "cube_shape st" and "i < 8"
  shows "map (\<lambda>p. fold write_slot (all_writes scheme st) (replicate 54 []) ! p) (corner_slots i)
           = corner_colors scheme st i"
  using assms(2)
  by (intro read_block [OF assms(1)])
     (auto simp: all_writes_def corner_slots_length corner_colors_length)

lemma read_edge:
  assumes "cube_shape st" and "i < 12"
  shows "map (\<lambda>p. fold write_slot (all_writes scheme st) (replicate 54 []) ! p) (edge_slots i)
           = edge_colors scheme st i"
  using assms(2)
  by (intro read_block [OF assms(1)])
     (auto simp: all_writes_def edge_slots_length edge_colors_length [OF assms])

lemma read_centers:
  assumes "cube_shape st"
  shows "map (\<lambda>p. fold write_slot (all_writes scheme st) (replicate 54 []) ! p) center_positions
           = map (scheme_color scheme) [0..<6]"
proof -
  have "zip center_positions (map (scheme_color scheme) [0..<6])
          = map (\<lambda>i. (center_positions ! i, scheme_color scheme i)) [0..<6]"
    by (simp add: center_positions_def upt_conv_Cons)
  then show ?thesis
    by (intro read_block [OF assms]) (auto simp: all_writes_def center_positions_def)
qed

subsection \<open>The search finds the cubie that was written\<close>

lemma table_lengths: "length corner_facelets = 8" "length edge_facelets = 12"
  by (simp_all add: corner_facelets_def edge_facelets_def)

lemma set_candidates:
  "set corner_candidates = {0..<8} \<times> {0..<3}" "set edge_candidates = {0..<12} \<times> {0..<2}"
  unfolding corner_candidates_def edge_candidates_def table_lengths by auto

lemma candidates_range:
  "(j, orient) \<in> set corner_candidates \<Longrightarrow> j < 8 \<and> orient < 3"
  "(j, orient) \<in> set edge_candidates \<Longrightarrow> j < 12 \<and> orient < 2"
  by (simp_all add: set_candidates)

lemma in_candidates:
  "j < 8 \<Longrightarrow> orient < 3 \<Longrightarrow> (j, orient) \<in> set corner_candidates"
  "j < 12 \<Longrightarrow> orient < 2 \<Longrightarrow> (j, orient) \<in> set edge_candidates"
  by (simp_all add: set_candidates)

lemma map_col_eq:
  assumes "inj_on col {0..<6::nat}" and "\<forall>f \<in> set xs. f < 6" and "\<forall>f \<in> set ys. f < 6"
  shows "map col xs = map col ys \<longleftrightarrow> xs = ys"
proof -
  have "inj_on col (set xs \<union> set ys)"
    using assms by (auto intro: inj_on_subset)
  then show ?thesis by (rule inj_on_map_eq_map)
qed

lemma match_corner_via_faces:
  assumes inj: "inj_on col {0..<6::nat}" and len: "length fs = 3" and rng: "\<forall>f \<in> set fs. f < 6"
  shows "match_corner (map col [0..<6]) (map col fs) = match_corner_faces fs"
  unfolding match_corner_def match_corner_faces_def corner_candidates_def [symmetric]
proof (rule find_cong [OF refl], clarify)
  fix j orient assume "(j, orient) \<in> set corner_candidates"
  then have j: "j < 8" by (simp add: candidates_range)
  obtain sf1 sp1 sf2 sp2 sf3 sp3 where t: "corner_facelets ! j = (sf1, sp1, sf2, sp2, sf3, sp3)"
    by (cases "corner_facelets ! j") auto
  have cf: "corner_faces j = [sf1, sf2, sf3]"
    by (simp add: corner_faces_def t)
  have sf: "sf1 < 6" "sf2 < 6" "sf3 < 6"
    using corner_faces_shape(2) [OF j] by (simp_all add: cf)
  define rot where "rot = map (\<lambda>k. fs ! ((k + orient) mod 3)) [0, 1, 2]"
  have rot_rng: "\<forall>f \<in> set rot. f < 6"
    using rng len by (simp add: rot_def)
  have lhs: "map (\<lambda>k. map col fs ! ((k + orient) mod 3)) [0, 1, 2] = map col rot"
    using len by (simp add: rot_def)
  have rhs: "[map col [0..<6] ! sf1, map col [0..<6] ! sf2, map col [0..<6] ! sf3] = map col [sf1, sf2, sf3]"
    using sf by simp
  have "(map col rot = map col [sf1, sf2, sf3]) = (rot = [sf1, sf2, sf3])"
    using sf by (intro map_col_eq [OF inj rot_rng]) simp
  then show "(case corner_facelets ! j of
          (sf1, sp1, sf2, sp2, sf3, sp3) \<Rightarrow>
            map (\<lambda>k. map col fs ! ((k + orient) mod 3)) [0, 1, 2] =
            [map col [0..<6] ! sf1, map col [0..<6] ! sf2, map col [0..<6] ! sf3]) =
        (map (\<lambda>k. fs ! ((k + orient) mod 3)) [0, 1, 2] = corner_faces j)"
    unfolding t prod.case lhs rhs cf rot_def .
qed

lemma match_edge_via_faces:
  assumes inj: "inj_on col {0..<6::nat}" and len: "length fs = 2" and rng: "\<forall>f \<in> set fs. f < 6"
  shows "match_edge (map col [0..<6]) (map col fs) = match_edge_faces fs"
  unfolding match_edge_def match_edge_faces_def edge_candidates_def [symmetric]
proof (rule find_cong [OF refl], clarify)
  fix j orient assume "(j, orient) \<in> set edge_candidates"
  then have j: "j < 12" by (simp add: candidates_range)
  obtain sf1 sp1 sf2 sp2 where t: "edge_facelets ! j = (sf1, sp1, sf2, sp2)"
    by (cases "edge_facelets ! j") auto
  have ef: "edge_faces j = [sf1, sf2]"
    by (simp add: edge_faces_def t)
  have sf: "sf1 < 6" "sf2 < 6"
    using edge_faces_shape(2) [OF j] by (simp_all add: ef)
  have a: "[map col [0..<6] ! sf1, map col [0..<6] ! sf2] = map col [sf1, sf2]"
    and b: "[map col [0..<6] ! sf2, map col [0..<6] ! sf1] = map col [sf2, sf1]"
    using sf by simp_all
  have "(map col fs = map col [sf1, sf2]) = (fs = [sf1, sf2])"
    and "(map col fs = map col [sf2, sf1]) = (fs = [sf2, sf1])"
    using sf by (intro map_col_eq [OF inj rng]; simp)+
  then show "(case edge_facelets ! j of
          (sf1, sp1, sf2, sp2) \<Rightarrow>
            if orient = 0 then map col fs = [map col [0..<6] ! sf1, map col [0..<6] ! sf2]
            else map col fs = [map col [0..<6] ! sf2, map col [0..<6] ! sf1]) =
        (if orient = 0 then fs = edge_faces j else fs = rev (edge_faces j))"
    unfolding t prod.case a b ef by simp
qed

lemma match_corner_colors:
  assumes inj: "inj_on (scheme_color scheme) {0..<6}" and shape: "cube_shape st" and i: "i < 8"
  shows "match_corner (map (scheme_color scheme) [0..<6]) (corner_colors scheme st i)
           = Some (nat (corner_perm st ! i), nat (corner_orient st ! i))"
proof -
  define j where "j = nat (corner_perm st ! i)"
  define orient where "orient = nat (corner_orient st ! i)"
  have j: "j < 8" and o: "orient < 3" and o': "corner_orient st ! i = int orient"
    using shape_corner [OF shape i] by (simp_all add: j_def orient_def)
  have "match_corner (map (scheme_color scheme) [0..<6]) (corner_colors scheme st i)
          = match_corner_faces (rotated_faces (corner_faces j) (int orient))"
    unfolding corner_colors_def o' j_def [symmetric]
    by (intro match_corner_via_faces [OF inj] rotated_faces_shape corner_faces_shape j)
  also have "\<dots> = Some (j, orient)"
    using corner_table_checked in_candidates(1) [OF j o] by (auto simp: list_all_iff)
  finally show ?thesis by (simp add: j_def orient_def)
qed

lemma match_edge_colors:
  assumes inj: "inj_on (scheme_color scheme) {0..<6}" and shape: "cube_shape st" and i: "i < 12"
  shows "match_edge (map (scheme_color scheme) [0..<6]) (edge_colors scheme st i)
           = Some (nat (edge_perm st ! i), nat (edge_orient st ! i))"
proof -
  define j where "j = nat (edge_perm st ! i)"
  define orient where "orient = nat (edge_orient st ! i)"
  have j: "j < 12" and o: "orient < 2" and o': "edge_orient st ! i = int orient"
    using shape_edge [OF shape i] by (simp_all add: j_def orient_def)
  have "match_edge (map (scheme_color scheme) [0..<6]) (edge_colors scheme st i)
          = match_edge_faces (swapped_faces (edge_faces j) (int orient))"
    unfolding edge_colors_def o' j_def [symmetric]
    by (intro match_edge_via_faces [OF inj] swapped_faces_shape edge_faces_shape j)
  also have "\<dots> = Some (j, orient)"
    using edge_table_checked in_candidates(2) [OF j o] by (auto simp: list_all_iff)
  finally show ?thesis by (simp add: j_def orient_def)
qed

lemma read_corners_ok:
  assumes "\<And>i. i \<in> set is \<Longrightarrow>
      match_corner centers (map (\<lambda>p. fs ! p) (corner_slots i)) = Some (nat (cp ! i), nat (co ! i))
      \<and> 0 \<le> cp ! i \<and> 0 \<le> co ! i"
  shows "read_corners fs centers is = Inr (map (\<lambda>i. cp ! i) is, map (\<lambda>i. co ! i) is)"
  using assms
proof (induction "is")
  case Nil
  then show ?case by simp
next
  case (Cons i "is")
  obtain f1 p1 f2 p2 f3 p3 where t: "corner_facelets ! i = (f1, p1, f2, p2, f3, p3)"
    by (cases "corner_facelets ! i") auto
  have slots: "map (\<lambda>p. fs ! p) (corner_slots i)
      = [fs ! (f1 * 9 + p1), fs ! (f2 * 9 + p2), fs ! (f3 * 9 + p3)]"
    by (simp add: corner_slots_def t)
  have m: "match_corner centers [fs ! (f1 * 9 + p1), fs ! (f2 * 9 + p2), fs ! (f3 * 9 + p3)]
      = Some (nat (cp ! i), nat (co ! i))" and nn: "0 \<le> cp ! i" "0 \<le> co ! i"
    using Cons.prems [of i] by (simp_all add: slots)
  have rest: "read_corners fs centers is = Inr (map (\<lambda>i. cp ! i) is, map (\<lambda>i. co ! i) is)"
    using Cons.IH Cons.prems by simp
  show ?case
    using nn by (simp add: t m rest and_then_def)
qed

lemma read_edges_ok:
  assumes "\<And>i. i \<in> set is \<Longrightarrow>
      match_edge centers (map (\<lambda>p. fs ! p) (edge_slots i)) = Some (nat (ep ! i), nat (eo ! i))
      \<and> 0 \<le> ep ! i \<and> 0 \<le> eo ! i"
  shows "read_edges fs centers is = Inr (map (\<lambda>i. ep ! i) is, map (\<lambda>i. eo ! i) is)"
  using assms
proof (induction "is")
  case Nil
  then show ?case by simp
next
  case (Cons i "is")
  obtain f1 p1 f2 p2 where t: "edge_facelets ! i = (f1, p1, f2, p2)"
    by (cases "edge_facelets ! i") auto
  have slots: "map (\<lambda>p. fs ! p) (edge_slots i) = [fs ! (f1 * 9 + p1), fs ! (f2 * 9 + p2)]"
    by (simp add: edge_slots_def t)
  have m: "match_edge centers [fs ! (f1 * 9 + p1), fs ! (f2 * 9 + p2)]
      = Some (nat (ep ! i), nat (eo ! i))" and nn: "0 \<le> ep ! i" "0 \<le> eo ! i"
    using Cons.prems [of i] by (simp_all add: slots)
  have rest: "read_edges fs centers is = Inr (map (\<lambda>i. ep ! i) is, map (\<lambda>i. eo ! i) is)"
    using Cons.IH Cons.prems by simp
  show ?case
    using nn by (simp add: t m rest and_then_def)
qed


text \<open>
  Claim C4, as the code has it: for every state of the documented shape (so for every
  legal state) and every colour scheme whose six colours are pairwise distinct,
  converting the state to facelets and the facelets back gives the state.
  \<open>from_facelets\<close> takes the colour of each face from the centre facelets.
\<close>

theorem facelet_round_trip:
  assumes shape: "cube_shape st"
    and colors: "distinct [color_U scheme, color_R scheme, color_F scheme,
                           color_D scheme, color_L scheme, color_B scheme]"
  shows "and_then (to_facelets st scheme) from_facelets = Inr st"
proof -
  define fs where "fs = fold write_slot (all_writes scheme st) (replicate 54 [])"
  define centers where "centers = map (\<lambda>p. fs ! p) center_positions"
  have "map (scheme_color scheme) [0..<6]
          = [color_U scheme, color_R scheme, color_F scheme,
             color_D scheme, color_L scheme, color_B scheme]"
    by (simp add: scheme_color_def upt_conv_Cons)
  then have "distinct (map (scheme_color scheme) [0..<6])"
    using colors by simp
  then have inj: "inj_on (scheme_color scheme) {0..<6}"
    by (simp add: distinct_map)
  have to: "to_facelets st scheme = Inr fs"
    by (simp add: to_facelets_writes [OF shape] fs_def)
  have len: "length fs = 54"
    by (simp add: fs_def fold_write_slot_length)
  have centers: "centers = map (scheme_color scheme) [0..<6]"
    unfolding centers_def fs_def by (rule read_centers [OF shape])
  have lens: "length (corner_perm st) = 8" "length (corner_orient st) = 8"
      "length (edge_perm st) = 12" "length (edge_orient st) = 12"
    using shape by (simp_all add: cube_shape_def)
  have "read_corners fs centers [0..<8]
          = Inr (map (\<lambda>i. corner_perm st ! i) [0..<8], map (\<lambda>i. corner_orient st ! i) [0..<8])"
  proof (rule read_corners_ok)
    fix i assume "i \<in> set [0..<8]"
    then have i: "i < 8" by simp
    show "match_corner centers (map (\<lambda>p. fs ! p) (corner_slots i))
            = Some (nat (corner_perm st ! i), nat (corner_orient st ! i))
          \<and> 0 \<le> corner_perm st ! i \<and> 0 \<le> corner_orient st ! i"
      unfolding centers fs_def read_corner [OF shape i]
      using match_corner_colors [OF inj shape i] shape_corner [OF shape i] by simp
  qed
  then have corners: "read_corners fs centers [0..<8] = Inr (corner_perm st, corner_orient st)"
    using map_nth [of "corner_perm st"] map_nth [of "corner_orient st"] by (simp add: lens)
  have "read_edges fs centers [0..<12]
          = Inr (map (\<lambda>i. edge_perm st ! i) [0..<12], map (\<lambda>i. edge_orient st ! i) [0..<12])"
  proof (rule read_edges_ok)
    fix i assume "i \<in> set [0..<12]"
    then have i: "i < 12" by simp
    show "match_edge centers (map (\<lambda>p. fs ! p) (edge_slots i))
            = Some (nat (edge_perm st ! i), nat (edge_orient st ! i))
          \<and> 0 \<le> edge_perm st ! i \<and> 0 \<le> edge_orient st ! i"
      unfolding centers fs_def read_edge [OF shape i]
      using match_edge_colors [OF inj shape i] shape_edge [OF shape i] by simp
  qed
  then have edges: "read_edges fs centers [0..<12] = Inr (edge_perm st, edge_orient st)"
    using map_nth [of "edge_perm st"] map_nth [of "edge_orient st"] by (simp add: lens)
  have nonempty: "corner_perm st \<noteq> []" "corner_orient st \<noteq> []"
      "edge_perm st \<noteq> []" "edge_orient st \<noteq> []"
    using lens by auto
  have init: "CubeState_init (PyList (corner_perm st)) (PyList (corner_orient st))
                (PyList (edge_perm st)) (PyList (edge_orient st)) = Inr st"
    using nonempty by (simp add: CubeState_init_def init_field_def and_then_def)
  have "from_facelets fs = Inr st"
    unfolding from_facelets_def Let_def centers_def [symmetric]
    using len by (simp add: corners edges init and_then_def)
  then show ?thesis
    by (simp add: to and_then_def)
qed


text \<open>The theorem at the state of one \<open>R\<close> turn and the default colour scheme.\<close>

theorem facelet_round_trip_witness:
  "cube_shape \<lparr>corner_perm = [3, 1, 2, 7, 0, 5, 6, 4], corner_orient = [0, 0, 0, 0, 0, 0, 0, 0],
               edge_perm = [8, 1, 2, 3, 11, 5, 6, 7, 4, 9, 10, 0],
               edge_orient = [0, 0, 0, 0, 0, 0, 0, 0, 0, 0, 0, 0]\<rparr> \<and>
   distinct [color_U default_scheme, color_R default_scheme, color_F default_scheme,
             color_D default_scheme, color_L default_scheme, color_B default_scheme] \<and>
   and_then (to_facelets \<lparr>corner_perm = [3, 1, 2, 7, 0, 5, 6, 4],
                           corner_orient = [0, 0, 0, 0, 0, 0, 0, 0],
                           edge_perm = [8, 1, 2, 3, 11, 5, 6, 7, 4, 9, 10, 0],
                           edge_orient = [0, 0, 0, 0, 0, 0, 0, 0, 0, 0, 0, 0]\<rparr> default_scheme)
     from_facelets
     = Inr \<lparr>corner_perm = [3, 1, 2, 7, 0, 5, 6, 4], corner_orient = [0, 0, 0, 0, 0, 0, 0, 0],
            edge_perm = [8, 1, 2, 3, 11, 5, 6, 7, 4, 9, 10, 0],
            edge_orient = [0, 0, 0, 0, 0, 0, 0, 0, 0, 0, 0, 0]\<rparr>"
proof -
  have shape: "cube_shape \<lparr>corner_perm = [3, 1, 2, 7, 0, 5, 6, 4],
      corner_orient = [0, 0, 0, 0, 0, 0, 0, 0], edge_perm = [8, 1, 2, 3, 11, 5, 6, 7, 4, 9, 10, 0],
      edge_orient = [0, 0, 0, 0, 0, 0, 0, 0, 0, 0, 0, 0]\<rparr>"
    by (simp add: cube_shape_def)
  have colors: "distinct [color_U default_scheme, color_R default_scheme, color_F default_scheme,
             color_D default_scheme, color_L default_scheme, color_B default_scheme]"
    by (simp add: default_scheme_def)
  show ?thesis
    using facelet_round_trip [OF shape colors] shape colors by simp
qed

text \<open>
  Claim C4 as stated fails for a colour scheme that repeats a colour: with white on
  both \<open>U\<close> and \<open>D\<close> the solved state, which is legal, comes back with the four \<open>D\<close>
  edges read as the four \<open>U\<close> edges.
\<close>

theorem facelet_round_trip_repeated_color:
  "legal solved_state \<and>
   and_then (to_facelets solved_state white_up_and_down) from_facelets
     = Inr (solved_state\<lparr>edge_perm := [0, 1, 2, 3, 0, 1, 2, 3, 8, 9, 10, 11]\<rparr>) \<and>
   solved_state\<lparr>edge_perm := [0, 1, 2, 3, 0, 1, 2, 3, 8, 9, 10, 11]\<rparr> \<noteq> solved_state"
proof -
  have "and_then (to_facelets solved_state white_up_and_down) from_facelets
     = Inr (solved_state\<lparr>edge_perm := [0, 1, 2, 3, 0, 1, 2, 3, 8, 9, 10, 11]\<rparr>)"
    by code_simp
  moreover have "solved_state\<lparr>edge_perm := [0, 1, 2, 3, 0, 1, 2, 3, 8, 9, 10, 11]\<rparr> \<noteq> solved_state"
    by (simp add: solved_state_def)
  ultimately show ?thesis
    using legal_solved by simp
qed

text \<open>
  The four invariants alone do not bound the orientation entries: a corner entry 3
  keeps the twist sum divisible by 3 and is read back as 0.
\<close>

lemma facelet_round_trip_needs_orientation_range:
  "and_then (to_facelets (solved_state\<lparr>corner_orient := [3, 0, 0, 0, 0, 0, 0, 0]\<rparr>) default_scheme)
     from_facelets = Inr solved_state"
  by code_simp

end
